theory Spec2Isabelle
  imports Main "HOL-Library.Sublist"
begin

section \<open>Payload extraction: \<open>extract_properties_from_html\<close>\<close>

text \<open>
  The payload is the JSON object assigned to \<open>window.__initialData__\<close> in the page.
  JSON values as Python's \<open>json.loads\<close> builds them: \<open>None\<close>, booleans, numbers, strings,
  lists and dicts (a dict is the list of its items, keys distinct). Page numbers and page
  counts are integers, so numbers are integers here.
\<close>

datatype json =
    JNull
  | JBool bool
  | JNum int
  | JStr string
  | JArr "json list"
  | JObj "(string \<times> json) list"

datatype py_exn = TypeError | AttributeError | KeyError | ValueError

text \<open>A computation that may raise: \<open>Inl\<close> is the exception.\<close>

definition and_then :: "py_exn + 'a \<Rightarrow> ('a \<Rightarrow> py_exn + 'b) \<Rightarrow> py_exn + 'b" where
  "and_then m f = (case m of Inl e \<Rightarrow> Inl e | Inr x \<Rightarrow> f x)"

text \<open>Python's \<open>k in v\<close> for a string \<open>k\<close>: key of a dict, element of a list, substring of a
  string; any other value is not iterable.\<close>

fun py_in :: "string \<Rightarrow> json \<Rightarrow> py_exn + bool" where
  "py_in k (JObj kvs) = Inr (k \<in> set (map fst kvs))"
| "py_in k (JArr xs) = Inr (JStr k \<in> set xs)"
| "py_in k (JStr s) = Inr (sublist k s)"
| "py_in k v = Inl TypeError"

text \<open>Python's \<open>v[k]\<close> for a string \<open>k\<close>: only a dict can be indexed by a string.\<close>

fun py_getitem :: "json \<Rightarrow> string \<Rightarrow> py_exn + json" where
  "py_getitem (JObj kvs) k = (case map_of kvs k of None \<Rightarrow> Inl KeyError | Some v \<Rightarrow> Inr v)"
| "py_getitem v k = Inl TypeError"

text \<open>Python's \<open>v.get(k, d)\<close>: only a dict has the method.\<close>

fun py_get :: "json \<Rightarrow> string \<Rightarrow> json \<Rightarrow> py_exn + json" where
  "py_get (JObj kvs) k d = Inr (case map_of kvs k of None \<Rightarrow> d | Some v \<Rightarrow> v)"
| "py_get v k d = Inl AttributeError"

fun py_len :: "json \<Rightarrow> py_exn + nat" where
  "py_len (JArr xs) = Inr (length xs)"
| "py_len (JObj kvs) = Inr (length kvs)"
| "py_len (JStr s) = Inr (length s)"
| "py_len v = Inl TypeError"

text \<open>The value 999 stands for "total number of pages unknown" throughout the scraper.\<close>

definition unknown_total :: int where
  "unknown_total = 999"

text \<open>
  The last step of the extraction, once no pagination entry gave a total: a page with at
  least 25 properties is taken to have successors.
\<close>

definition guess_total_pages :: "json \<Rightarrow> py_exn + json" where
  "guess_total_pages properties =
     and_then (py_len properties) (\<lambda>n.
       Inr (if n \<ge> 25 then JNum 999 else JNum 1))"

text \<open>The alternative places of the total: \<open>data['srp']['pagination']\<close>, under
  \<open>totalPages\<close> and then \<open>total_pages\<close>.\<close>

definition alt_total_pages :: "json \<Rightarrow> py_exn + json" where
  "alt_total_pages data =
     and_then (py_get data ''srp'' (JObj [])) (\<lambda>srp.
     and_then (py_get srp ''pagination'' (JObj [])) (\<lambda>alt_pagination.
     and_then (py_get alt_pagination ''totalPages'' JNull) (\<lambda>total_pages.
       if total_pages = JNull then py_get alt_pagination ''total_pages'' JNull
       else Inr total_pages)))"

text \<open>
  The body of the \<open>try\<close> block after \<open>json.loads\<close>. \<open>Inr None\<close> is falling through the
  \<open>if\<close>s to the final \<open>return [], 1, 1\<close>; \<open>Inl\<close> is an exception raised on the way.
\<close>

definition extract_from_data :: "json \<Rightarrow> py_exn + (json \<times> json \<times> json) option" where
  "extract_from_data data =
     and_then (py_in ''srp'' data) (\<lambda>c1.
     if \<not> c1 then Inr None else
     and_then (py_getitem data ''srp'') (\<lambda>srp.
     and_then (py_in ''pageData'' srp) (\<lambda>c2.
     if \<not> c2 then Inr None else
     and_then (py_getitem srp ''pageData'') (\<lambda>page_data.
     and_then (py_in ''properties'' page_data) (\<lambda>c3.
     if \<not> c3 then Inr None else
     and_then (py_getitem page_data ''properties'') (\<lambda>properties.
     and_then (py_get data ''srp'' (JObj [])) (\<lambda>srp'.
     and_then (py_get srp' ''pageData'' (JObj [])) (\<lambda>page_data'.
     and_then (py_get page_data' ''pagination'' (JObj [])) (\<lambda>pagination.
     and_then (py_get pagination ''totalPages'' JNull) (\<lambda>total_pages.
     and_then (py_get pagination ''currentPage'' (JNum 1)) (\<lambda>current_page.
     and_then (if total_pages = JNull then alt_total_pages data else Inr total_pages)
       (\<lambda>total_pages.
     and_then (if total_pages = JNull then guess_total_pages properties else Inr total_pages)
       (\<lambda>total_pages.
       Inr (Some (properties, current_page, total_pages)))))))))))))))"

text \<open>
  The function itself. \<open>re.search\<close> with the fixed pattern and \<open>json.loads\<close> are library
  code and are parameters: \<open>re_search html\<close> is group 1 of the first match, if any, and
  \<open>json_loads\<close> parses it or raises. Every exception of the \<open>try\<close> block is caught and leads
  to the final \<open>return [], 1, 1\<close>.
\<close>

definition extract_properties_from_html ::
  "(string \<Rightarrow> string option) \<Rightarrow> (string \<Rightarrow> py_exn + json) \<Rightarrow> string \<Rightarrow> json \<times> json \<times> json"
where
  "extract_properties_from_html re_search json_loads html =
     (case re_search html of
        None \<Rightarrow> (JArr [], JNum 1, JNum 1)
      | Some data_str \<Rightarrow>
          (case and_then (json_loads data_str) extract_from_data of
             Inl e \<Rightarrow> (JArr [], JNum 1, JNum 1)
           | Inr None \<Rightarrow> (JArr [], JNum 1, JNum 1)
           | Inr (Some r) \<Rightarrow> r))"

section \<open>One page: \<open>fetch_single_page\<close>\<close>

text \<open>
  A page result is the tuple the scraper passes around:
  \<open>(page_num, properties, current_page, total_pages)\<close>. From here on the records are
  opaque (\<open>'r\<close>) and the page numbers are integers.
\<close>

type_synonym 'r page_result = "int \<times> 'r list \<times> int \<times> int"

text \<open>
  One round of the retry loop: \<open>fetch_with_retry\<close> returns no response, or it returns one
  and \<open>extract_properties_from_html\<close> gives \<open>(properties, current_page, total_pages)\<close>.
\<close>

datatype 'r attempt = FetchFailed | Extracted "'r list" int int

definition max_retries_per_page :: nat where
  "max_retries_per_page = 5"

text \<open>
  The \<open>while\<close> loop. The network is an oracle \<open>att\<close>: \<open>att n\<close> is what the call of
  \<open>fetch_with_retry\<close> after \<open>n\<close> earlier calls (for this page, in this dispatch) leads to.
  The loop returns the result together with the number of calls it has made.
\<close>

function fetch_single_page_loop ::
  "(nat \<Rightarrow> 'r attempt) \<Rightarrow> int \<Rightarrow> nat \<Rightarrow> nat \<Rightarrow> 'r page_result \<times> nat"
where
  "fetch_single_page_loop att page_num page_retry_count fetches =
     (if page_retry_count < max_retries_per_page then
        (case att fetches of
           FetchFailed \<Rightarrow>
             if page_retry_count + 1 < max_retries_per_page
             then fetch_single_page_loop att page_num (page_retry_count + 1) (fetches + 1)
             else ((page_num, [], 1, 1), fetches + 1)
         | Extracted properties current_page total_pages \<Rightarrow>
             if properties \<noteq> [] then ((page_num, properties, current_page, total_pages), fetches + 1)
             else if page_retry_count + 1 < max_retries_per_page
             then fetch_single_page_loop att page_num (page_retry_count + 1) (fetches + 1)
             else ((page_num, [], current_page, total_pages), fetches + 1))
      else ((page_num, [], 1, 1), fetches))"
  by pat_completeness auto
termination
  by (relation "measure (\<lambda>(att, page_num, page_retry_count, fetches).
        max_retries_per_page - page_retry_count)") auto

declare fetch_single_page_loop.simps [simp del]

definition fetch_single_page :: "(nat \<Rightarrow> 'r attempt) \<Rightarrow> int \<Rightarrow> 'r page_result \<times> nat" where
  "fetch_single_page att page_num = fetch_single_page_loop att page_num 0 0"

section \<open>One batch of pages\<close>

text \<open>
  A page handed to the thread pool either runs \<open>fetch_single_page\<close> against the network, or
  its future raises. The environment gives, for the \<open>n\<close>-th dispatch of a batch and each
  page of it, the task's behaviour and the time at which its future completes.
\<close>

datatype 'r task = Raises | Runs "nat \<Rightarrow> 'r attempt"

record 'r network =
  task :: "nat \<Rightarrow> int \<Rightarrow> 'r task"
  finish :: "nat \<Rightarrow> int \<Rightarrow> nat"

text \<open>\<open>future.result()\<close> inside its \<open>try\<close>: an exception gives \<open>(page_num, [], 1, 1)\<close>.\<close>

definition future_result :: "'r network \<Rightarrow> nat \<Rightarrow> int \<Rightarrow> 'r page_result" where
  "future_result net n page_num =
     (case task net n page_num of
        Raises \<Rightarrow> (page_num, [], 1, 1)
      | Runs att \<Rightarrow> fst (fetch_single_page att page_num))"

text \<open>\<open>as_completed\<close> yields the futures in the order in which they finish.\<close>

definition as_completed :: "'r network \<Rightarrow> nat \<Rightarrow> int list \<Rightarrow> int list" where
  "as_completed net n pages_to_scrape = sort_key (finish net n) pages_to_scrape"

text \<open>The results are collected in completion order, then sorted by page number.\<close>

definition batch_results :: "'r network \<Rightarrow> nat \<Rightarrow> int list \<Rightarrow> 'r page_result list" where
  "batch_results net n pages_to_scrape =
     sort_key fst (map (future_result net n) (as_completed net n pages_to_scrape))"

text \<open>The accumulators of the loop over the sorted results.\<close>

record 'r tally =
  batch_properties :: "'r list"
  empty_pages_in_batch :: nat
  pages_with_properties :: nat
  estimate :: int

fun process_result :: "'r page_result \<Rightarrow> 'r tally \<Rightarrow> 'r tally" where
  "process_result (page_num, properties, current_page, total_pages) t =
     (if properties \<noteq> [] then
        t\<lparr>batch_properties := batch_properties t @ properties,
          pages_with_properties := pages_with_properties t + 1,
          estimate := (if estimate t = 999 \<and> total_pages < 999 then total_pages
                       else estimate t)\<rparr>
      else t\<lparr>empty_pages_in_batch := empty_pages_in_batch t + 1\<rparr>)"

definition process_results :: "'r page_result list \<Rightarrow> int \<Rightarrow> 'r tally" where
  "process_results results total_pages_estimate =
     fold process_result results
       \<lparr>batch_properties = [], empty_pages_in_batch = 0, pages_with_properties = 0,
        estimate = total_pages_estimate\<rparr>"

section \<open>The scraper's state\<close>

text \<open>
  The content of \<open>output/scraping_progress.json\<close> that depends on the run: the page and the
  number of properties. City and property type are constant during one harvest.
\<close>

record checkpoint =
  cp_current_page :: int
  cp_total_properties :: nat

text \<open>
  The attributes of the scraper that the harvest of one category reads and writes, the two
  stores on disk, the log of the batches handed to the thread pool, and the local variables
  of \<open>scrape_city_property_type\<close>. An intermediate file is
  \<open>(start_page, end_page, properties)\<close>.
\<close>

record 'r scraper =
  interrupted :: bool
  current_properties :: "'r list"
  current_page :: int
  progress_file :: "checkpoint option"
  intermediate_files :: "(int \<times> int \<times> 'r list) list"
  dispatched :: "int list list"
  all_properties :: "'r list"
  page :: int
  consecutive_empty_batches :: nat
  total_pages_estimate :: int

record config =
  start_page :: int
  max_pages :: "int option"
  test_mode :: bool

definition concurrent_pages :: int where
  "concurrent_pages = 5"

definition max_batch_retries :: nat where
  "max_batch_retries = 2"

definition max_consecutive_empty_batches :: nat where
  "max_consecutive_empty_batches = 2"

text \<open>Both saves overwrite or add a file; the write is taken to succeed.\<close>

definition save_progress :: "'r scraper \<Rightarrow> int \<Rightarrow> nat \<Rightarrow> 'r scraper" where
  "save_progress st current_page' total_properties =
     st\<lparr>progress_file :=
          Some \<lparr>cp_current_page = current_page', cp_total_properties = total_properties\<rparr>\<rparr>"

definition save_intermediate_data :: "'r scraper \<Rightarrow> 'r list \<Rightarrow> int \<Rightarrow> int \<Rightarrow> 'r scraper" where
  "save_intermediate_data st properties start_page' end_page =
     (if properties = [] then st
      else st\<lparr>intermediate_files :=
                intermediate_files st @ [(start_page', end_page, properties)]\<rparr>)"

definition save_on_interrupt :: "config \<Rightarrow> 'r scraper \<Rightarrow> 'r scraper" where
  "save_on_interrupt cfg st =
     (if current_properties st \<noteq> [] then
        save_progress
          (save_intermediate_data st (current_properties st) (start_page cfg) (current_page st))
          (current_page st) (length (current_properties st))
      else st)"

text \<open>The handler sets the flag, saves, and raises \<open>KeyboardInterrupt\<close>: the state it
  leaves behind is the state in which the exception travels to the caller.\<close>

definition signal_handler :: "config \<Rightarrow> 'r scraper \<Rightarrow> 'r scraper" where
  "signal_handler cfg st = save_on_interrupt cfg (st\<lparr>interrupted := True\<rparr>)"

section \<open>The harvest of one category: \<open>scrape_city_property_type\<close>\<close>

text \<open>\<open>self.max_pages and current_page > self.max_pages\<close>: \<open>None\<close> and 0 are false.\<close>

definition over_max_pages :: "int option \<Rightarrow> int \<Rightarrow> bool" where
  "over_max_pages mp p = (case mp of None \<Rightarrow> False | Some m \<Rightarrow> m \<noteq> 0 \<and> p > m)"

text \<open>The \<open>for\<close> loop that builds \<open>pages_to_scrape\<close> stops at the first page beyond a limit.\<close>

definition pages_to_scrape :: "config \<Rightarrow> 'r scraper \<Rightarrow> int list" where
  "pages_to_scrape cfg st =
     takeWhile
       (\<lambda>current_page'.
          \<not> over_max_pages (max_pages cfg) current_page' \<and>
          \<not> (total_pages_estimate st < 999 \<and> current_page' > total_pages_estimate st))
       (map (\<lambda>i. page st + int i) [0..<nat concurrent_pages])"

text \<open>One pass of the batch: dispatch, collect, sort, tally. The number of earlier
  dispatches selects what the network answers.\<close>

definition attempt_batch ::
  "'r network \<Rightarrow> int list \<Rightarrow> 'r scraper \<Rightarrow> 'r scraper \<times> 'r tally \<times> nat"
where
  "attempt_batch net pages st =
     (let results = batch_results net (length (dispatched st)) pages;
          t = process_results results (total_pages_estimate st)
      in (st\<lparr>dispatched := dispatched st @ [pages], total_pages_estimate := estimate t\<rparr>,
          t, length results))"

text \<open>
  The batch retry loop, entered with \<open>batch_retry_count = 0\<close>. It returns the state with
  \<open>empty_pages_in_batch\<close> and \<open>len(batch_results)\<close> of its last pass, which the code reads
  after the loop.
\<close>

function batch_retry_loop ::
  "'r network \<Rightarrow> int list \<Rightarrow> 'r scraper \<Rightarrow> nat \<Rightarrow> 'r scraper \<times> nat \<times> nat"
where
  "batch_retry_loop net pages st batch_retry_count =
     (case attempt_batch net pages st of (st1, t, n) \<Rightarrow>
        if pages_with_properties t > 0 \<or> page st > 100 then
          (st1\<lparr>all_properties := all_properties st1 @ batch_properties t,
               current_properties := all_properties st1 @ batch_properties t,
               current_page := page st + concurrent_pages - 1\<rparr>,
           empty_pages_in_batch t, n)
        else if batch_retry_count + 1 \<le> max_batch_retries
        then batch_retry_loop net pages st1 (batch_retry_count + 1)
        else (st1, empty_pages_in_batch t, n))"
  by pat_completeness auto
termination
  by (relation "measure (\<lambda>(net, pages, st, batch_retry_count).
        max_batch_retries - batch_retry_count)") auto

declare batch_retry_loop.simps [simp del]

definition should_break :: "config \<Rightarrow> 'r scraper \<Rightarrow> bool" where
  "should_break cfg st =
     (if test_mode cfg then True
      else if over_max_pages (max_pages cfg) (page st + concurrent_pages) then True
      else if total_pages_estimate st < 999 \<and> page st + concurrent_pages > total_pages_estimate st
      then True
      else False)"

datatype 's loop_result = Break 's | Continue 's

text \<open>One round of the \<open>while True\<close> loop.\<close>

definition loop_body :: "'r network \<Rightarrow> config \<Rightarrow> 'r scraper \<Rightarrow> 'r scraper loop_result" where
  "loop_body net cfg st =
     (if interrupted st then Break st
      else let pages = pages_to_scrape cfg st in
        if pages = [] then Break st
        else (case batch_retry_loop net pages st 0 of (st1, empty_pages, n_results) \<Rightarrow>
          let st2 = st1\<lparr>consecutive_empty_batches :=
                         (if empty_pages = n_results then consecutive_empty_batches st1 + 1
                          else 0)\<rparr>
          in if empty_pages = n_results \<and>
                consecutive_empty_batches st2 \<ge> max_consecutive_empty_batches then Break st2
             else if should_break cfg st2 then Break st2
             else let st3 = st2\<lparr>page := page st2 + concurrent_pages\<rparr>
                  in Continue (save_progress st3 (page st3 + concurrent_pages - 1)
                                 (length (all_properties st3)))))"

text \<open>The loop need not end: a source that never runs out of pages keeps it going.\<close>

partial_function (option) scrape_loop ::
  "'r network \<Rightarrow> config \<Rightarrow> 'r scraper \<Rightarrow> 'r scraper option"
where
  "scrape_loop net cfg st =
     (case loop_body net cfg st of
        Break st' \<Rightarrow> Some st'
      | Continue st' \<Rightarrow> scrape_loop net cfg st')"

text \<open>The assignments before the loop.\<close>

definition enter :: "config \<Rightarrow> 'r scraper \<Rightarrow> 'r scraper" where
  "enter cfg st =
     st\<lparr>current_properties := [], current_page := start_page cfg, all_properties := [],
        page := start_page cfg, consecutive_empty_batches := 0, total_pages_estimate := 999\<rparr>"

text \<open>The final save after the loop.\<close>

definition final_save :: "config \<Rightarrow> 'r scraper \<Rightarrow> 'r scraper" where
  "final_save cfg st =
     (if all_properties st \<noteq> [] then
        (let final_page = (if page st > start_page cfg then page st + concurrent_pages - 1
                           else start_page cfg)
         in save_progress
              (save_intermediate_data st (all_properties st) (start_page cfg) final_page)
              final_page (length (all_properties st)))
      else st)"

definition scrape_city_property_type ::
  "'r network \<Rightarrow> config \<Rightarrow> 'r scraper \<Rightarrow> ('r list \<times> 'r scraper) option"
where
  "scrape_city_property_type net cfg st =
     map_option (\<lambda>st'. (all_properties st', final_save cfg st'))
       (scrape_loop net cfg (enter cfg st))"

text \<open>A scraper as \<open>__init__\<close> leaves it, with no checkpoint on disk.\<close>

definition fresh :: "'r scraper" where
  "fresh =
     \<lparr>interrupted = False, current_properties = [], current_page = 1, progress_file = None,
      intermediate_files = [], dispatched = [], all_properties = [], page = 1,
      consecutive_empty_batches = 0, total_pages_estimate = 999\<rparr>"

text \<open>
  The run as a transition system, for what holds at every moment of a harvest whether or
  not it ends: a round of the loop, the normal end with its final save, and a signal, whose
  handler ends the harvest with \<open>KeyboardInterrupt\<close>.
\<close>

datatype 'r phase = Running "'r scraper" | Returned "'r scraper" | Aborted "'r scraper"

fun state_of :: "'r phase \<Rightarrow> 'r scraper" where
  "state_of (Running st) = st"
| "state_of (Returned st) = st"
| "state_of (Aborted st) = st"

inductive step :: "'r network \<Rightarrow> config \<Rightarrow> 'r phase \<Rightarrow> 'r phase \<Rightarrow> bool"
  for net :: "'r network" and cfg :: config
where
  round: "loop_body net cfg st = Continue st' \<Longrightarrow> step net cfg (Running st) (Running st')"
| leave: "loop_body net cfg st = Break st' \<Longrightarrow>
          step net cfg (Running st) (Returned (final_save cfg st'))"
| signal: "step net cfg (Running st) (Aborted (signal_handler cfg st))"

section \<open>Notions used in the statements\<close>

text \<open>An attempt yields records when it fetched a response with a non-empty property list.\<close>

definition yields_records :: "'r attempt \<Rightarrow> bool" where
  "yields_records a = (case a of FetchFailed \<Rightarrow> False | Extracted ps c t \<Rightarrow> ps \<noteq> [])"

definition records_of :: "'r attempt \<Rightarrow> 'r list" where
  "records_of a = (case a of FetchFailed \<Rightarrow> [] | Extracted ps c t \<Rightarrow> ps)"

text \<open>The pagination data an attempt leaves behind: \<open>(current_page, total_pages)\<close> of the
  response, and \<open>(1, 1)\<close> when nothing was fetched.\<close>

definition observed :: "'r attempt \<Rightarrow> int \<times> int" where
  "observed a = (case a of FetchFailed \<Rightarrow> (1, 1) | Extracted ps c t \<Rightarrow> (c, t))"

text \<open>The update of the estimate by one reported total, as the loop over the results does
  it: only an estimate of 999 is replaced, and only by a total below 999.\<close>

definition update_estimate :: "int \<Rightarrow> int \<Rightarrow> int" where
  "update_estimate est total_pages =
     (if est = 999 \<and> total_pages < 999 then total_pages else est)"

text \<open>The specification's wording of the update for a batch: the reported total of every
  result is fed into it.\<close>

definition feed_every_total :: "'r page_result list \<Rightarrow> int \<Rightarrow> int" where
  "feed_every_total results est =
     fold (\<lambda>r e. update_estimate e (snd (snd (snd r)))) results est"

definition no_records :: "'r page_result list \<Rightarrow> bool" where
  "no_records results = list_all (\<lambda>r. fst (snd r) = []) results"

definition records_in :: "'r page_result list \<Rightarrow> 'r list" where
  "records_in results = concat (map (\<lambda>r. fst (snd r)) results)"

text \<open>The sorted results of the \<open>i\<close>-th pass (from 0) of the batch that is entered in
  state \<open>st\<close>.\<close>

definition pass :: "'r network \<Rightarrow> 'r scraper \<Rightarrow> int list \<Rightarrow> nat \<Rightarrow> 'r page_result list" where
  "pass net st pages i = batch_results net (length (dispatched st) + i) pages"

definition after :: "'s loop_result \<Rightarrow> 's" where
  "after r = (case r of Break s \<Rightarrow> s | Continue s \<Rightarrow> s)"

text \<open>
  The loop cut off after \<open>k\<close> rounds, to run a harvest on a concrete site: what it
  returns, the loop returns.
\<close>

fun scrape_rounds :: "nat \<Rightarrow> 'r network \<Rightarrow> config \<Rightarrow> 'r scraper \<Rightarrow> 'r scraper option" where
  "scrape_rounds 0 net cfg st = None"
| "scrape_rounds (Suc k) net cfg st =
     (case loop_body net cfg st of
        Break st' \<Rightarrow> Some st'
      | Continue st' \<Rightarrow> scrape_rounds k net cfg st')"

text \<open>
  A record list is collected from pages below \<open>b\<close> when it is the concatenation of
  results of the network for strictly ascending page numbers below \<open>b\<close>.
\<close>

definition collected :: "'r network \<Rightarrow> int \<Rightarrow> 'r list \<Rightarrow> bool" where
  "collected net b props =
     (\<exists>rs. props = records_in rs \<and> sorted_wrt (<) (map fst rs) \<and>
           (\<forall>r\<in>set rs. fst r < b \<and> (\<exists>n. r = future_result net n (fst r))))"


section \<open>Concrete inputs\<close>

text \<open>A page without the \<open>window.__initialData__\<close> assignment: the search finds nothing.\<close>

definition no_match :: "string \<Rightarrow> string option" where
  "no_match html = None"

definition never_loads :: "string \<Rightarrow> py_exn + json" where
  "never_loads data_str = Inl ValueError"

text \<open>A payload with \<open>n\<close> properties and no pagination entry anywhere.\<close>

definition bare_payload :: "nat \<Rightarrow> json" where
  "bare_payload n =
     JObj [(''srp'', JObj [(''pageData'', JObj [(''properties'', JArr (replicate n (JObj [])))])])]"

text \<open>A site that cannot be reached: every call of \<open>fetch_with_retry\<close> gives up.\<close>

definition unreachable :: "nat \<Rightarrow> nat attempt" where
  "unreachable n = FetchFailed"

text \<open>Two failed calls, then a response with one record, page 3 of 40.\<close>

definition third_time_lucky :: "nat \<Rightarrow> nat attempt" where
  "third_time_lucky n = (if n = 2 then Extracted [0] 3 40 else FetchFailed)"

text \<open>Responses without records that report page 3 of 40.\<close>

definition placeholder_pages :: "nat \<Rightarrow> nat attempt" where
  "placeholder_pages n = Extracted [] 3 40"

text \<open>A site that answers nothing during the first two dispatches and then serves every
  page with one record (the page number), without a total.\<close>

definition flaky_site :: "int network" where
  "flaky_site =
     \<lparr>task = (\<lambda>n p. if n < 2 then Runs (\<lambda>k. FetchFailed) else Runs (\<lambda>k. Extracted [p] 1 999)),
      finish = (\<lambda>n p. 0)\<rparr>"

text \<open>A site that never answers.\<close>

definition dead_site :: "int network" where
  "dead_site = \<lparr>task = (\<lambda>n p. Runs (\<lambda>k. FetchFailed)), finish = (\<lambda>n p. 0)\<rparr>"

text \<open>A site that serves page 1 with one record and no total, and nothing else.\<close>

definition half_site :: "int network" where
  "half_site =
     \<lparr>task = (\<lambda>n p. if p = 1 then Runs (\<lambda>k. Extracted [p] 1 999) else Runs (\<lambda>k. FetchFailed)),
      finish = (\<lambda>n p. 0)\<rparr>"

text \<open>A full harvest from page 1, and one resumed at page 101.\<close>

definition plain :: config where
  "plain = \<lparr>start_page = 1, max_pages = None, test_mode = False\<rparr>"

definition resumed :: config where
  "resumed = \<lparr>start_page = 101, max_pages = None, test_mode = False\<rparr>"

text \<open>
  A site that serves every page with one record (the page number) and the total 999, the
  value that stands for an unknown total.
\<close>

definition endless_site :: "int network" where
  "endless_site = \<lparr>task = (\<lambda>n p. Runs (\<lambda>k. Extracted [p] p 999)), finish = (\<lambda>n p. 0)\<rparr>"


text \<open>
  A site of 10 pages whose futures finish in descending page order. Page 1 comes without
  records but reports 40 pages; page 2 has a record and reports 80; the others report 20.
\<close>

definition late_total_site :: "int network" where
  "late_total_site =
     \<lparr>task = (\<lambda>n p. Runs (\<lambda>k. if p = 1 then Extracted [] 1 40
                               else if p = 2 then Extracted [p] p 80
                               else if p \<le> 10 then Extracted [p] p 20
                               else FetchFailed)),
      finish = (\<lambda>n p. nat (10 - p))\<rparr>"




section \<open>Extraction\<close>

lemma extract_from_data_Some:
  assumes "extract_from_data data = Inr (Some r)"
  shows "\<exists>d srp pd v. data = JObj d \<and> map_of d ''srp'' = Some (JObj srp) \<and>
           map_of srp ''pageData'' = Some (JObj pd) \<and> map_of pd ''properties'' = Some v"
proof -
  from assms obtain d where d: "data = JObj d"
    by (cases data) (auto simp: extract_from_data_def and_then_def split: if_splits)
  from assms d obtain s where s: "map_of d ''srp'' = Some s"
    by (cases "map_of d ''srp''") (auto simp: extract_from_data_def and_then_def split: if_splits)
  from assms d s obtain srp where srp: "s = JObj srp"
    by (cases s) (auto simp: extract_from_data_def and_then_def split: if_splits)
  from assms d s srp obtain q where q: "map_of srp ''pageData'' = Some q"
    by (cases "map_of srp ''pageData''")
       (auto simp: extract_from_data_def and_then_def split: if_splits)
  from assms d s srp q obtain pd where pd: "q = JObj pd"
    by (cases q) (auto simp: extract_from_data_def and_then_def split: if_splits)
  from assms d s srp q pd obtain v where v: "map_of pd ''properties'' = Some v"
    by (cases "map_of pd ''properties''")
       (auto simp: extract_from_data_def and_then_def split: if_splits)
  from d s srp q pd v show ?thesis by blast
qed

text \<open>
  C6, as the code has it. The function is total: whatever is raised while the payload is
  searched, loaded and read is caught. Whenever the page holds no object with a
  \<open>srp.pageData.properties\<close> entry, and whenever the \<open>try\<close> block raises, the result is the
  empty list with current page 1 and total pages 1.
\<close>

theorem extract_default_when_unparseable:
  "(\<not> (\<exists>data_str d srp pd v. re_search html = Some data_str \<and>
          json_loads data_str = Inr (JObj d) \<and>
          map_of d ''srp'' = Some (JObj srp) \<and> map_of srp ''pageData'' = Some (JObj pd) \<and>
          map_of pd ''properties'' = Some v)
     \<longrightarrow> extract_properties_from_html re_search json_loads html = (JArr [], JNum 1, JNum 1)) \<and>
   (\<forall>data_str e. re_search html = Some data_str \<and>
          and_then (json_loads data_str) extract_from_data = Inl e
     \<longrightarrow> extract_properties_from_html re_search json_loads html = (JArr [], JNum 1, JNum 1))"
proof (intro conjI impI allI)
  assume a: "\<not> (\<exists>data_str d srp pd v. re_search html = Some data_str \<and>
          json_loads data_str = Inr (JObj d) \<and>
          map_of d ''srp'' = Some (JObj srp) \<and> map_of srp ''pageData'' = Some (JObj pd) \<and>
          map_of pd ''properties'' = Some v)"
  show "extract_properties_from_html re_search json_loads html = (JArr [], JNum 1, JNum 1)"
  proof (cases "re_search html")
    case None
    then show ?thesis by (simp add: extract_properties_from_html_def)
  next
    case (Some data_str)
    show ?thesis
    proof (cases "json_loads data_str")
      case (Inl e)
      with Some show ?thesis by (simp add: extract_properties_from_html_def and_then_def)
    next
      case (Inr data)
      have "extract_from_data data \<noteq> Inr (Some r)" for r
      proof
        assume "extract_from_data data = Inr (Some r)"
        from extract_from_data_Some[OF this] Some Inr a show False by blast
      qed
      with Some Inr show ?thesis
        by (auto simp: extract_properties_from_html_def and_then_def
            split: sum.splits option.splits)
    qed
  qed
next
  fix data_str e
  assume "re_search html = Some data_str \<and>
          and_then (json_loads data_str) extract_from_data = Inl e"
  then show "extract_properties_from_html re_search json_loads html = (JArr [], JNum 1, JNum 1)"
    by (simp add: extract_properties_from_html_def)
qed

theorem extract_default_when_unparseable_witness:
  "extract_properties_from_html no_match never_loads ''<html></html>'' =
     (JArr [], JNum 1, JNum 1) \<and>
   extract_properties_from_html Some never_loads ''{broken};'' = (JArr [], JNum 1, JNum 1)"
proof
  have "\<not> (\<exists>data_str d srp pd v. no_match ''<html></html>'' = Some data_str \<and>
          never_loads data_str = Inr (JObj d) \<and>
          map_of d ''srp'' = Some (JObj srp) \<and> map_of srp ''pageData'' = Some (JObj pd) \<and>
          map_of pd ''properties'' = Some v)"
    by (simp add: no_match_def)
  with extract_default_when_unparseable[of no_match "''<html></html>''" never_loads]
  show "extract_properties_from_html no_match never_loads ''<html></html>'' =
     (JArr [], JNum 1, JNum 1)"
    by blast
next
  have "Some ''{broken};'' = Some ''{broken};'' \<and>
        and_then (never_loads ''{broken};'') extract_from_data = Inl ValueError"
    by (simp add: never_loads_def and_then_def)
  with extract_default_when_unparseable[of Some "''{broken};''" never_loads]
  show "extract_properties_from_html Some never_loads ''{broken};'' = (JArr [], JNum 1, JNum 1)"
    by blast
qed

text \<open>
  C6 as the specification words it fails: for a page without payload the total is 1, which
  is a known total, not the value 999 that stands for an unknown one.
\<close>

theorem extract_default_not_unknown:
  "snd (snd (extract_properties_from_html no_match never_loads ''<html></html>''))
     \<noteq> JNum unknown_total"
  by (simp add: extract_properties_from_html_def no_match_def unknown_total_def)

text \<open>
  C10. A payload that has properties (a list) and no pagination entry, neither under
  \<open>srp.pageData\<close> nor under \<open>srp\<close>: the total is 999 exactly when there are at least 25
  properties, and 1 otherwise; the current page is 1.
\<close>

theorem extract_without_pagination:
  assumes "re_search html = Some data_str" and "json_loads data_str = Inr (JObj d)"
    and "map_of d ''srp'' = Some (JObj srp)"
    and "map_of srp ''pageData'' = Some (JObj pd)"
    and "map_of pd ''properties'' = Some (JArr ps)"
    and "map_of pd ''pagination'' = None"
    and "map_of srp ''pagination'' = None"
  shows "extract_properties_from_html re_search json_loads html =
           (JArr ps, JNum 1, JNum (if length ps \<ge> 25 then 999 else 1))"
  using assms
  by (simp add: extract_properties_from_html_def extract_from_data_def and_then_def
      alt_total_pages_def guess_total_pages_def map_of_eq_None_iff[symmetric]
      del: map_of_eq_None_iff)

theorem extract_without_pagination_witness:
  "extract_properties_from_html Some (\<lambda>s. Inr (bare_payload 25)) ''{...};'' =
     (JArr (replicate 25 (JObj [])), JNum 1, JNum 999) \<and>
   extract_properties_from_html Some (\<lambda>s. Inr (bare_payload 24)) ''{...};'' =
     (JArr (replicate 24 (JObj [])), JNum 1, JNum 1)"
  using extract_without_pagination[of Some "''{...};''" "''{...};''"
          "\<lambda>s. Inr (bare_payload 25)"
          "[(''srp'', JObj [(''pageData'', JObj [(''properties'', JArr (replicate 25 (JObj [])))])])]"
          "[(''pageData'', JObj [(''properties'', JArr (replicate 25 (JObj [])))])]"
          "[(''properties'', JArr (replicate 25 (JObj [])))]" "replicate 25 (JObj [])"]
        extract_without_pagination[of Some "''{...};''" "''{...};''"
          "\<lambda>s. Inr (bare_payload 24)"
          "[(''srp'', JObj [(''pageData'', JObj [(''properties'', JArr (replicate 24 (JObj [])))])])]"
          "[(''pageData'', JObj [(''properties'', JArr (replicate 24 (JObj [])))])]"
          "[(''properties'', JArr (replicate 24 (JObj [])))]" "replicate 24 (JObj [])"]
  by (simp add: bare_payload_def)

section \<open>One page\<close>

lemma loop_bound:
  "snd (fetch_single_page_loop att p prc f) \<le> f + (max_retries_per_page - prc)"
proof (induction att p prc f rule: fetch_single_page_loop.induct)
  case (1 att page_num page_retry_count fetches)
  show ?case
    apply (subst fetch_single_page_loop.simps)
    using 1 by (auto split: attempt.splits)
qed

lemma loop_success:
  "prc + d < max_retries_per_page \<Longrightarrow> yields_records (att (f + d)) \<Longrightarrow>
   (\<forall>j<d. \<not> yields_records (att (f + j))) \<Longrightarrow>
   fetch_single_page_loop att p prc f =
     ((p, records_of (att (f + d)), observed (att (f + d))), f + d + 1)"
proof (induction d arbitrary: prc f)
  case 0
  then show ?case
    by (subst fetch_single_page_loop.simps)
       (auto simp: yields_records_def records_of_def observed_def split: attempt.splits)
next
  case (Suc d)
  have a: "\<not> yields_records (att f)" using Suc.prems(3) by force
  have b: "prc + 1 < max_retries_per_page" "prc < max_retries_per_page"
    using Suc.prems(1) by auto
  have "fetch_single_page_loop att p (prc + 1) (f + 1) =
          ((p, records_of (att (f + 1 + d)), observed (att (f + 1 + d))), f + 1 + d + 1)"
  proof (rule Suc.IH)
    show "prc + 1 + d < max_retries_per_page" using Suc.prems(1) by simp
    show "yields_records (att (f + 1 + d))" using Suc.prems(2) by simp
    show "\<forall>j<d. \<not> yields_records (att (f + 1 + j))"
    proof (intro allI impI)
      fix j assume "j < d"
      then have "\<not> yields_records (att (f + Suc j))" using Suc.prems(3) by blast
      then show "\<not> yields_records (att (f + 1 + j))" by simp
    qed
  qed
  with a b show ?case
    by (subst fetch_single_page_loop.simps)
       (auto simp: yields_records_def split: attempt.splits)
qed

lemma loop_exhausted:
  "prc + d + 1 = max_retries_per_page \<Longrightarrow> (\<forall>j\<le>d. \<not> yields_records (att (f + j))) \<Longrightarrow>
   fetch_single_page_loop att p prc f = ((p, [], observed (att (f + d))), f + d + 1)"
proof (induction d arbitrary: prc f)
  case 0
  then show ?case
    by (subst fetch_single_page_loop.simps)
       (auto simp: yields_records_def observed_def split: attempt.splits)
next
  case (Suc d)
  have a: "\<not> yields_records (att f)" using Suc.prems(2) by force
  have b: "prc + 1 < max_retries_per_page" "prc < max_retries_per_page"
    using Suc.prems(1) by auto
  have "fetch_single_page_loop att p (prc + 1) (f + 1) =
          ((p, [], observed (att (f + 1 + d))), f + 1 + d + 1)"
  proof (rule Suc.IH)
    show "prc + 1 + d + 1 = max_retries_per_page" using Suc.prems(1) by simp
    show "\<forall>j\<le>d. \<not> yields_records (att (f + 1 + j))"
    proof (intro allI impI)
      fix j assume "j \<le> d"
      then have "\<not> yields_records (att (f + Suc j))" using Suc.prems(2) by auto
      then show "\<not> yields_records (att (f + 1 + j))" by simp
    qed
  qed
  with a b show ?case
    by (subst fetch_single_page_loop.simps)
       (auto simp: yields_records_def split: attempt.splits)
qed

text \<open>
  C5, as the code has it. \<open>fetch_single_page\<close> calls \<open>fetch_with_retry\<close> at most 5 times. The
  first attempt that yields records ends it, with the requested page number and that
  attempt's records and pagination data. When none of the 5 attempts yields records, the
  result has the requested page number, no records, and the pagination data of the fifth
  attempt alone: what its response said, and \<open>(1, 1)\<close> when it fetched nothing.
\<close>

theorem fetch_single_page_attempts:
  "snd (fetch_single_page att p) \<le> 5 \<and>
   (\<forall>i<5. yields_records (att i) \<and> (\<forall>j<i. \<not> yields_records (att j)) \<longrightarrow>
      fetch_single_page att p = ((p, records_of (att i), observed (att i)), i + 1)) \<and>
   ((\<forall>i<5. \<not> yields_records (att i)) \<longrightarrow>
      fetch_single_page att p = ((p, [], observed (att 4)), 5))"
proof (intro conjI allI impI)
  show "snd (fetch_single_page att p) \<le> 5"
    using loop_bound[of att p 0 0] by (simp add: fetch_single_page_def max_retries_per_page_def)
next
  fix i :: nat
  assume i: "i < 5" and y: "yields_records (att i) \<and> (\<forall>j<i. \<not> yields_records (att j))"
  show "fetch_single_page att p = ((p, records_of (att i), observed (att i)), i + 1)"
    using loop_success[of 0 i att 0 p] i y
    by (simp add: fetch_single_page_def max_retries_per_page_def)
next
  assume n: "\<forall>i<5. \<not> yields_records (att i)"
  show "fetch_single_page att p = ((p, [], observed (att 4)), 5)"
    using loop_exhausted[of 0 4 att 0 p] n
    by (simp add: fetch_single_page_def max_retries_per_page_def)
qed

theorem fetch_single_page_attempts_witness:
  "fetch_single_page third_time_lucky 7 = ((7, [0], 3, 40), 3) \<and>
   fetch_single_page placeholder_pages 7 = ((7, [], 3, 40), 5)"
proof
  have a: "\<forall>i<5. yields_records (third_time_lucky i) \<and>
             (\<forall>j<i. \<not> yields_records (third_time_lucky j)) \<longrightarrow>
           fetch_single_page third_time_lucky 7 =
             ((7, records_of (third_time_lucky i), observed (third_time_lucky i)), i + 1)"
    using fetch_single_page_attempts[of third_time_lucky 7] by blast
  have "yields_records (third_time_lucky 2) \<and> (\<forall>j<2. \<not> yields_records (third_time_lucky j))"
    by (simp add: third_time_lucky_def yields_records_def)
  with a[rule_format, of 2]
  show "fetch_single_page third_time_lucky 7 = ((7, [0], 3, 40), 3)"
    by (simp add: third_time_lucky_def records_of_def observed_def)
next
  have "\<forall>i<5. \<not> yields_records (placeholder_pages i)"
    by (simp add: placeholder_pages_def yields_records_def)
  with fetch_single_page_attempts[of placeholder_pages 7]
  show "fetch_single_page placeholder_pages 7 = ((7, [], 3, 40), 5)"
    by (simp add: placeholder_pages_def observed_def)
qed

text \<open>
  C5 as the specification words it fails: when the site cannot be reached, the result
  carries total pages 1, not the value for an unknown total.
\<close>

theorem fetch_single_page_unreachable_total:
  "fst (fetch_single_page unreachable 7) = (7, [], 1, 1) \<and>
   snd (snd (snd (fst (fetch_single_page unreachable 7)))) \<noteq> unknown_total"
  by (simp add: fetch_single_page_def fetch_single_page_loop.simps max_retries_per_page_def
      unreachable_def unknown_total_def)

section \<open>One batch\<close>

lemma fold_batch_properties:
  "batch_properties (fold process_result rs t) = batch_properties t @ records_in rs"
proof (induction rs arbitrary: t)
  case Nil
  show ?case by (simp add: records_in_def)
next
  case (Cons r rs)
  obtain pn ps c tp where r: "r = (pn, ps, c, tp)" by (cases r) auto
  show ?case
  proof (cases "ps = []")
    case True
    then show ?thesis by (simp add: Cons.IH r records_in_def)
  next
    case False
    then show ?thesis by (simp add: Cons.IH r records_in_def)
  qed
qed

lemma fold_empty_pages:
  "empty_pages_in_batch (fold process_result rs t) =
     empty_pages_in_batch t + length (filter (\<lambda>r. fst (snd r) = []) rs)"
proof (induction rs arbitrary: t)
  case Nil
  show ?case by simp
next
  case (Cons r rs)
  obtain pn ps c tp where r: "r = (pn, ps, c, tp)" by (cases r) auto
  show ?case
  proof (cases "ps = []")
    case True
    then show ?thesis by (simp add: Cons.IH r)
  next
    case False
    then show ?thesis by (simp add: Cons.IH r)
  qed
qed

lemma fold_pages_with_properties:
  "pages_with_properties (fold process_result rs t) =
     pages_with_properties t + length (filter (\<lambda>r. fst (snd r) \<noteq> []) rs)"
proof (induction rs arbitrary: t)
  case Nil
  show ?case by simp
next
  case (Cons r rs)
  obtain pn ps c tp where r: "r = (pn, ps, c, tp)" by (cases r) auto
  show ?case
  proof (cases "ps = []")
    case True
    then show ?thesis by (simp add: Cons.IH r)
  next
    case False
    then show ?thesis by (simp add: Cons.IH r)
  qed
qed

lemma fold_estimate:
  "estimate (fold process_result rs t) =
     fold (\<lambda>r e. update_estimate e (snd (snd (snd r))))
       (filter (\<lambda>r. fst (snd r) \<noteq> []) rs) (estimate t)"
proof (induction rs arbitrary: t)
  case Nil
  show ?case by simp
next
  case (Cons r rs)
  obtain pn ps c tp where r: "r = (pn, ps, c, tp)" by (cases r) auto
  show ?case
  proof (cases "ps = []")
    case True
    then show ?thesis by (simp add: Cons.IH r)
  next
    case False
    then show ?thesis by (simp add: Cons.IH r update_estimate_def)
  qed
qed

lemma process_results_eq:
  "batch_properties (process_results rs est) = records_in rs"
  "empty_pages_in_batch (process_results rs est) = length (filter (\<lambda>r. fst (snd r) = []) rs)"
  "pages_with_properties (process_results rs est) = length (filter (\<lambda>r. fst (snd r) \<noteq> []) rs)"
  "estimate (process_results rs est) =
     fold (\<lambda>r e. update_estimate e (snd (snd (snd r))))
       (filter (\<lambda>r. fst (snd r) \<noteq> []) rs) est"
  by (simp_all add: process_results_def fold_batch_properties fold_empty_pages
      fold_pages_with_properties fold_estimate)

lemma no_records_filter: "no_records rs \<Longrightarrow> filter (\<lambda>r. fst (snd r) \<noteq> []) rs = []"
  by (simp add: no_records_def list_all_iff filter_empty_conv)

lemma no_records_filter2: "no_records rs \<Longrightarrow> filter (\<lambda>r. fst (snd r) = []) rs = rs"
  by (simp add: no_records_def list_all_iff filter_id_conv)

lemma no_records_records_in: "no_records rs \<Longrightarrow> records_in rs = []"
  by (simp add: no_records_def list_all_iff records_in_def)

lemma some_records_filter:
  "\<not> no_records rs \<Longrightarrow> 0 < length (filter (\<lambda>r. fst (snd r) \<noteq> []) rs)"
  by (simp add: no_records_def list_all_iff filter_empty_conv)

lemma pages_with_properties_pos:
  "(0 < pages_with_properties (process_results rs est)) = (\<not> no_records rs)"
proof (cases "no_records rs")
  case True
  then show ?thesis by (simp add: process_results_eq no_records_filter)
next
  case False
  then show ?thesis using some_records_filter[of rs] by (simp add: process_results_eq)
qed

lemma fold_update_known: "est \<noteq> 999 \<Longrightarrow> fold (\<lambda>r e. update_estimate e (f r)) rs est = est"
  by (induction rs) (auto simp: update_estimate_def)

lemma batch_retry_unfold:
  "batch_retry_loop net pages st brc =
     (let rs = batch_results net (length (dispatched st)) pages;
          t = process_results rs (total_pages_estimate st);
          st1 = st\<lparr>dispatched := dispatched st @ [pages], total_pages_estimate := estimate t\<rparr>
      in if \<not> no_records rs \<or> page st > 100 then
           (st1\<lparr>all_properties := all_properties st @ records_in rs,
                current_properties := all_properties st @ records_in rs,
                current_page := page st + 4\<rparr>,
            empty_pages_in_batch t, length rs)
         else if brc < 2 then batch_retry_loop net pages st1 (brc + 1)
         else (st1, length rs, length rs))"
proof -
  obtain st1 t n where a: "attempt_batch net pages st = (st1, t, n)"
    by (cases "attempt_batch net pages st") auto
  have t: "t = process_results (batch_results net (length (dispatched st)) pages) (total_pages_estimate st)"
    and n: "n = length (batch_results net (length (dispatched st)) pages)"
    and st1: "st1 = st\<lparr>dispatched := dispatched st @ [pages], total_pages_estimate := estimate t\<rparr>"
    using a by (auto simp: attempt_batch_def Let_def)
  show ?thesis
  proof (cases "no_records (batch_results net (length (dispatched st)) pages)")
    case True
    then have e: "empty_pages_in_batch t = n" "pages_with_properties t = 0"
      by (simp_all add: t n process_results_eq no_records_filter no_records_filter2)
    show ?thesis
      apply (subst batch_retry_loop.simps)
      apply (simp add: a e True Let_def concurrent_pages_def max_batch_retries_def
          t[symmetric] n[symmetric] st1[symmetric])
      apply (simp add: st1 no_records_records_in[OF True] t process_results_eq)
      done
  next
    case False
    then have e: "0 < pages_with_properties t"
      by (simp add: t pages_with_properties_pos)
    show ?thesis
      apply (subst batch_retry_loop.simps)
      apply (simp add: a e False Let_def concurrent_pages_def
          t[symmetric] n[symmetric] st1[symmetric])
      apply (simp add: st1 t process_results_eq)
      done
  qed
qed

lemma empty_pass:
  "no_records (batch_results net (length (dispatched st)) pages) \<Longrightarrow>
   st\<lparr>dispatched := dispatched st @ [pages],
      total_pages_estimate := estimate (process_results (batch_results net (length (dispatched st)) pages) (total_pages_estimate st))\<rparr>
   = st\<lparr>dispatched := dispatched st @ [pages]\<rparr>"
  by (simp add: process_results_eq no_records_filter)


lemma empty_step:
  assumes "no_records (pass net st pages 0)" and "page st \<le> 100" and "brc < 2"
  shows "batch_retry_loop net pages st brc =
           batch_retry_loop net pages (st\<lparr>dispatched := dispatched st @ [pages]\<rparr>) (Suc brc)"
  using assms empty_pass[of net st pages]
  by (subst batch_retry_unfold) (simp add: pass_def Let_def)

lemma empty_last:
  assumes "no_records (pass net st pages 0)" and "page st \<le> 100" and "\<not> brc < 2"
  shows "batch_retry_loop net pages st brc =
           (st\<lparr>dispatched := dispatched st @ [pages]\<rparr>,
            length (pass net st pages 0), length (pass net st pages 0))"
  using assms empty_pass[of net st pages]
  by (subst batch_retry_unfold) (simp add: pass_def Let_def)

lemma accept_step:
  assumes "\<not> no_records (pass net st pages 0) \<or> page st > 100"
  shows "dispatched (fst (batch_retry_loop net pages st brc)) = dispatched st @ [pages]"
    and "all_properties (fst (batch_retry_loop net pages st brc)) =
           all_properties st @ records_in (pass net st pages 0)"
  using assms
  by (subst batch_retry_unfold, auto simp add: pass_def Let_def)+

text \<open>
  C3. A batch that starts at a page up to 100 is dispatched again while no page of it
  yields records, at most 3 times in all: the first pass with records ends the loop and its
  records are appended to the collection; after 3 passes without records the empty outcome
  stands (as many empty pages as results). A batch that starts beyond page 100 is
  dispatched once, whatever it yields.
\<close>

theorem batch_retry_policy:
  "(page st \<le> 100 \<longrightarrow>
      (\<forall>i\<le>2. (\<forall>j<i. no_records (pass net st pages j)) \<and> \<not> no_records (pass net st pages i) \<longrightarrow>
          dispatched (fst (batch_retry_loop net pages st 0)) =
            dispatched st @ replicate (i + 1) pages \<and>
          all_properties (fst (batch_retry_loop net pages st 0)) =
            all_properties st @ records_in (pass net st pages i)) \<and>
      ((\<forall>j\<le>2. no_records (pass net st pages j)) \<longrightarrow>
          dispatched (fst (batch_retry_loop net pages st 0)) =
            dispatched st @ replicate 3 pages \<and>
          all_properties (fst (batch_retry_loop net pages st 0)) = all_properties st \<and>
          fst (snd (batch_retry_loop net pages st 0)) = snd (snd (batch_retry_loop net pages st 0)))) \<and>
   (page st > 100 \<longrightarrow>
      dispatched (fst (batch_retry_loop net pages st 0)) = dispatched st @ [pages] \<and>
      all_properties (fst (batch_retry_loop net pages st 0)) =
        all_properties st @ records_in (pass net st pages 0))"
proof (intro conjI impI allI)
  fix i :: nat
  assume p: "page st \<le> 100" and i: "i \<le> 2"
    and h: "(\<forall>j<i. no_records (pass net st pages j)) \<and> \<not> no_records (pass net st pages i)"
  let ?st1 = "st\<lparr>dispatched := dispatched st @ [pages]\<rparr>"
  let ?st2 = "?st1\<lparr>dispatched := dispatched ?st1 @ [pages]\<rparr>"
  have p1: "page ?st1 \<le> 100" "page ?st2 \<le> 100" using p by simp_all
  consider "i = 0" | "i = 1" | "i = 2" using i by linarith
  then have both: "dispatched (fst (batch_retry_loop net pages st 0)) =
            dispatched st @ replicate (i + 1) pages \<and>
          all_properties (fst (batch_retry_loop net pages st 0)) =
            all_properties st @ records_in (pass net st pages i)"
  proof cases
    case 1
    with h accept_step[of net st pages 0] show ?thesis by simp
  next
    case 2
    from 2 h have "no_records (pass net st pages 0)" "\<not> no_records (pass net st pages 1)"
      by simp_all
    then have e0: "no_records (pass net st pages 0)"
      and n1: "\<not> no_records (pass net ?st1 pages 0)"
      by (simp_all add: pass_def)
    have "batch_retry_loop net pages st 0 = batch_retry_loop net pages ?st1 (Suc 0)"
      by (rule empty_step[OF e0 p]) simp
    with accept_step[of net ?st1 pages "Suc 0"] n1 2 show ?thesis
      by (simp add: pass_def)
  next
    case 3
    from 3 h have "no_records (pass net st pages 0)" "no_records (pass net st pages 1)"
      "\<not> no_records (pass net st pages 2)"
      by simp_all
    then have e0: "no_records (pass net st pages 0)"
      and e1: "no_records (pass net ?st1 pages 0)"
      and n2: "\<not> no_records (pass net ?st2 pages 0)"
      by (simp_all add: pass_def)
    have "batch_retry_loop net pages st 0 = batch_retry_loop net pages ?st1 (Suc 0)"
      by (rule empty_step[OF e0 p]) simp
    also have "\<dots> = batch_retry_loop net pages ?st2 (Suc (Suc 0))"
      by (rule empty_step[OF e1 p1(1)]) simp
    finally show ?thesis
      using accept_step[of net ?st2 pages "Suc (Suc 0)"] n2 3
      by (simp add: pass_def numeral_3_eq_3)
  qed
  from both show "dispatched (fst (batch_retry_loop net pages st 0)) =
            dispatched st @ replicate (i + 1) pages" by simp
  from both show "all_properties (fst (batch_retry_loop net pages st 0)) =
            all_properties st @ records_in (pass net st pages i)" by simp
next
  assume p: "page st \<le> 100" and h: "\<forall>j\<le>2. no_records (pass net st pages j)"
  let ?st1 = "st\<lparr>dispatched := dispatched st @ [pages]\<rparr>"
  let ?st2 = "?st1\<lparr>dispatched := dispatched ?st1 @ [pages]\<rparr>"
  have p1: "page ?st1 \<le> 100" "page ?st2 \<le> 100" using p by simp_all
  from h have "no_records (pass net st pages 0)" "no_records (pass net st pages 1)"
    "no_records (pass net st pages 2)"
    by simp_all
  then have e0: "no_records (pass net st pages 0)"
    and e1: "no_records (pass net ?st1 pages 0)"
    and e2: "no_records (pass net ?st2 pages 0)"
    by (simp_all add: pass_def)
  have "batch_retry_loop net pages st 0 = batch_retry_loop net pages ?st1 (Suc 0)"
    by (rule empty_step[OF e0 p]) simp
  also have "\<dots> = batch_retry_loop net pages ?st2 (Suc (Suc 0))"
    by (rule empty_step[OF e1 p1(1)]) simp
  also have "\<dots> = (?st2\<lparr>dispatched := dispatched ?st2 @ [pages]\<rparr>,
            length (pass net ?st2 pages 0), length (pass net ?st2 pages 0))"
    by (rule empty_last[OF e2 p1(2)]) simp
  finally have r: "batch_retry_loop net pages st 0 =
     (?st2\<lparr>dispatched := dispatched ?st2 @ [pages]\<rparr>,
            length (pass net ?st2 pages 0), length (pass net ?st2 pages 0))" .
  show "dispatched (fst (batch_retry_loop net pages st 0)) = dispatched st @ replicate 3 pages"
    by (simp add: r numeral_3_eq_3)
  show "all_properties (fst (batch_retry_loop net pages st 0)) = all_properties st"
    by (simp add: r)
  show "fst (snd (batch_retry_loop net pages st 0)) = snd (snd (batch_retry_loop net pages st 0))"
    by (simp add: r)
next
  assume p: "page st > 100"
  then show "dispatched (fst (batch_retry_loop net pages st 0)) = dispatched st @ [pages]"
    using accept_step(1)[of net st pages 0] by simp
  from p show "all_properties (fst (batch_retry_loop net pages st 0)) =
        all_properties st @ records_in (pass net st pages 0)"
    using accept_step(2)[of net st pages 0] by simp
qed

theorem batch_retry_policy_witness:
  "dispatched (fst (batch_retry_loop flaky_site [1, 2, 3, 4, 5] (enter plain fresh) 0)) =
     [[1, 2, 3, 4, 5], [1, 2, 3, 4, 5], [1, 2, 3, 4, 5]] \<and>
   all_properties (fst (batch_retry_loop flaky_site [1, 2, 3, 4, 5] (enter plain fresh) 0)) =
     [1, 2, 3, 4, 5] \<and>
   dispatched (fst (batch_retry_loop dead_site [101, 102, 103, 104, 105] (enter resumed fresh) 0)) =
     [[101, 102, 103, 104, 105]]"
proof -
  let ?st = "enter plain fresh :: int scraper"
  let ?ps = "[1, 2, 3, 4, 5] :: int list"
  have p: "page ?st \<le> 100" by (simp add: enter_def plain_def)
  have e0: "no_records (pass flaky_site ?st ?ps 0)" by code_simp
  have e1: "no_records (pass flaky_site ?st ?ps 1)" by code_simp
  have n2: "\<not> no_records (pass flaky_site ?st ?ps 2)" by code_simp
  have r2: "records_in (pass flaky_site ?st ?ps 2) = [1, 2, 3, 4, 5]" by code_simp
  have d0: "dispatched ?st = []" "all_properties ?st = []"
    by (simp_all add: enter_def fresh_def)
  have h: "(\<forall>j<2. no_records (pass flaky_site ?st ?ps j)) \<and>
           \<not> no_records (pass flaky_site ?st ?ps 2)"
    using e0 e1 n2 by (auto simp: less_2_cases_iff)
  have a: "\<forall>i\<le>2. (\<forall>j<i. no_records (pass flaky_site ?st ?ps j)) \<and>
             \<not> no_records (pass flaky_site ?st ?ps i) \<longrightarrow>
          dispatched (fst (batch_retry_loop flaky_site ?ps ?st 0)) =
            dispatched ?st @ replicate (i + 1) ?ps \<and>
          all_properties (fst (batch_retry_loop flaky_site ?ps ?st 0)) =
            all_properties ?st @ records_in (pass flaky_site ?st ?ps i)"
    using batch_retry_policy[where st = ?st and net = flaky_site and pages = ?ps] p by blast
  have first: "dispatched (fst (batch_retry_loop flaky_site ?ps ?st 0)) = [?ps, ?ps, ?ps] \<and>
      all_properties (fst (batch_retry_loop flaky_site ?ps ?st 0)) = ?ps"
    using a[rule_format, of 2] h by (simp add: d0 r2 numeral_3_eq_3)
  let ?st' = "enter resumed fresh :: int scraper"
  let ?ps' = "[101, 102, 103, 104, 105] :: int list"
  have p': "page ?st' > 100" by (simp add: enter_def resumed_def)
  have d0': "dispatched ?st' = []" by (simp add: enter_def fresh_def)
  have second: "dispatched (fst (batch_retry_loop dead_site ?ps' ?st' 0)) = [?ps']"
    using batch_retry_policy[where st = ?st' and net = dead_site and pages = ?ps'] p'
    by (simp add: d0')
  from first second show ?thesis by simp
qed

lemma loop_page:
  "fst (fst (fetch_single_page_loop att p prc f)) = p"
proof (induction att p prc f rule: fetch_single_page_loop.induct)
  case (1 att page_num page_retry_count fetches)
  show ?case
    apply (subst fetch_single_page_loop.simps)
    using 1 by (auto split: attempt.splits)
qed

lemma future_result_page: "fst (future_result net n p) = p"
  by (simp add: future_result_def fetch_single_page_def loop_page split: task.splits)

lemma insort_key_map:
  assumes "\<And>x. g (F x) = x"
  shows "insort_key g (F x) (map F xs) = map F (insort x xs)"
  using assms by (induction xs) simp_all

lemma sort_key_map:
  assumes "\<And>x. g (F x) = x"
  shows "sort_key g (map F xs) = map F (sort xs)"
  using assms by (induction xs) (simp_all add: insort_key_map)

lemma sort_insort_key: "sort (insort_key k x ys) = insort x (sort ys)"
  by (induction ys) (simp_all add: insort_left_comm)

lemma sort_sort_key: "sort (sort_key k xs) = sort xs"
  by (induction xs) (simp_all add: sort_insort_key)

lemma batch_results_in_page_order:
  "batch_results net n pages = map (future_result net n) (sort pages)"
proof -
  have "sort_key fst (map (future_result net n) (as_completed net n pages)) =
        map (future_result net n) (sort (as_completed net n pages))"
    by (rule sort_key_map) (rule future_result_page)
  then show ?thesis by (simp add: batch_results_def as_completed_def sort_sort_key)
qed

text \<open>
  C7, as the code has it. Whatever the order in which the futures complete, the results of
  a pass are those of its pages in ascending page order. After the pass the estimate is the
  old one updated, in that order, by the totals of those results that have records; a
  result without records is counted as an empty page and its total is not looked at.
\<close>

theorem estimate_fed_by_pages_with_records:
  "total_pages_estimate (fst (attempt_batch net pages st)) =
     feed_every_total
       (filter (\<lambda>r. fst (snd r) \<noteq> [])
          (map (future_result net (length (dispatched st))) (sort pages)))
       (total_pages_estimate st) \<and>
   map fst (batch_results net (length (dispatched st)) pages) = sort pages"
  by (simp add: attempt_batch_def Let_def process_results_eq feed_every_total_def
      batch_results_in_page_order comp_def future_result_page)

text \<open>
  C7 as the specification words it fails: page 1 has a record and reports no total, page 2
  cannot be fetched and so comes back with total 1. Feeding every total would set the
  estimate to 1; the code leaves it at 999.
\<close>

theorem empty_result_total_not_fed:
  "total_pages_estimate (fst (attempt_batch half_site [1, 2] fresh)) = 999 \<and>
   feed_every_total (batch_results half_site (length (dispatched fresh)) [1, 2])
     (total_pages_estimate fresh) = 1"
  by code_simp

section \<open>The harvest loop\<close>

lemma estimate_known:
  "est \<noteq> 999 \<Longrightarrow> estimate (process_results rs est) = est"
  by (simp add: process_results_eq fold_update_known)

lemma brl_frame:
  "page (fst (batch_retry_loop net pages st brc)) = page st \<and>
   interrupted (fst (batch_retry_loop net pages st brc)) = interrupted st \<and>
   consecutive_empty_batches (fst (batch_retry_loop net pages st brc)) =
     consecutive_empty_batches st \<and>
   progress_file (fst (batch_retry_loop net pages st brc)) = progress_file st \<and>
   intermediate_files (fst (batch_retry_loop net pages st brc)) = intermediate_files st"
proof (induction "2 - brc" arbitrary: st brc)
  case 0
  then have "\<not> brc < 2" by simp
  then show ?case
    by (subst (1 2 3 4 5) batch_retry_unfold) (simp add: Let_def)
next
  case (Suc k)
  then have b: "brc < 2" and k: "k = 2 - (brc + 1)" by simp_all
  show ?case
    using Suc.hyps(1)[OF k] b
    by (subst (1 2 3 4 5) batch_retry_unfold) (simp add: Let_def)
qed

lemma brl_dispatched:
  "\<exists>k. dispatched (fst (batch_retry_loop net pages st brc)) =
         dispatched st @ replicate (Suc k) pages"
proof (induction "2 - brc" arbitrary: st brc)
  case 0
  then have "\<not> brc < 2" by simp
  then have "dispatched (fst (batch_retry_loop net pages st brc)) = dispatched st @ replicate (Suc 0) pages"
    by (subst batch_retry_unfold) (simp add: Let_def)
  then show ?case by blast
next
  case (Suc k)
  then have b: "brc < 2" and k: "k = 2 - (brc + 1)" by simp_all
  let ?rs = "batch_results net (length (dispatched st)) pages"
  let ?st1 = "st\<lparr>dispatched := dispatched st @ [pages],
     total_pages_estimate := estimate (process_results ?rs (total_pages_estimate st))\<rparr>"
  show ?case
  proof (cases "\<not> no_records ?rs \<or> page st > 100")
    case True
    then have "dispatched (fst (batch_retry_loop net pages st brc)) = dispatched st @ replicate (Suc 0) pages"
      by (subst batch_retry_unfold) (auto simp add: Let_def)
    then show ?thesis by blast
  next
    case False
    then have e: "batch_retry_loop net pages st brc = batch_retry_loop net pages ?st1 (brc + 1)"
      using b by (subst batch_retry_unfold) (simp add: Let_def)
    from Suc.hyps(1)[OF k, of ?st1] obtain j where
      "dispatched (fst (batch_retry_loop net pages ?st1 (brc + 1))) =
         dispatched ?st1 @ replicate (Suc j) pages" by blast
    then have "dispatched (fst (batch_retry_loop net pages st brc)) =
         dispatched st @ replicate (Suc (Suc j)) pages"
      by (simp add: e replicate_append_same)
    then show ?thesis by blast
  qed
qed

lemma brl_estimate:
  "total_pages_estimate st \<noteq> 999 \<Longrightarrow>
   total_pages_estimate (fst (batch_retry_loop net pages st brc)) = total_pages_estimate st"
proof (induction "2 - brc" arbitrary: st brc)
  case 0
  then have "\<not> brc < 2" by simp
  with 0(2) show ?case
    by (subst batch_retry_unfold) (simp add: Let_def estimate_known)
next
  case (Suc k)
  then have b: "brc < 2" and k: "k = 2 - (brc + 1)" by simp_all
  have "total_pages_estimate (fst (batch_retry_loop net pages
           (st\<lparr>dispatched := dispatched st @ [pages]\<rparr>) (brc + 1))) = total_pages_estimate st"
    using Suc.hyps(1)[OF k, of "st\<lparr>dispatched := dispatched st @ [pages]\<rparr>"] Suc.prems by simp
  then show ?case
    using Suc.prems b
    by (subst batch_retry_unfold) (simp add: Let_def estimate_known)
qed


lemma loop_body_stop:
  "interrupted st \<or> pages_to_scrape cfg st = [] \<Longrightarrow> loop_body net cfg st = Break st"
  by (auto simp: loop_body_def Let_def)

lemma loop_body_run:
  assumes "\<not> interrupted st" and "pages_to_scrape cfg st \<noteq> []"
  shows "\<exists>c pg pf. after (loop_body net cfg st) =
           (fst (batch_retry_loop net (pages_to_scrape cfg st) st 0))
             \<lparr>consecutive_empty_batches := c, page := pg, progress_file := pf\<rparr>"
proof -
  obtain st1 e n where r: "batch_retry_loop net (pages_to_scrape cfg st) st 0 = (st1, e, n)"
    by (cases "batch_retry_loop net (pages_to_scrape cfg st) st 0") auto
  define st2 where
    "st2 = st1\<lparr>consecutive_empty_batches :=
                  (if e = n then consecutive_empty_batches st1 + 1 else 0)\<rparr>"
  have "after (loop_body net cfg st) = st2 \<or>
        after (loop_body net cfg st) =
          save_progress (st2\<lparr>page := page st2 + concurrent_pages\<rparr>)
            (page st2 + concurrent_pages + concurrent_pages - 1) (length (all_properties st2))"
    using assms by (simp add: loop_body_def r Let_def after_def st2_def)
  then show ?thesis
  proof
    assume "after (loop_body net cfg st) = st2"
    then have "after (loop_body net cfg st) =
        (fst (batch_retry_loop net (pages_to_scrape cfg st) st 0))
          \<lparr>consecutive_empty_batches := consecutive_empty_batches st2, page := page st1,
           progress_file := progress_file st1\<rparr>"
      by (simp add: r st2_def)
    then show ?thesis by blast
  next
    assume "after (loop_body net cfg st) =
          save_progress (st2\<lparr>page := page st2 + concurrent_pages\<rparr>)
            (page st2 + concurrent_pages + concurrent_pages - 1) (length (all_properties st2))"
    then have "after (loop_body net cfg st) =
        (fst (batch_retry_loop net (pages_to_scrape cfg st) st 0))
          \<lparr>consecutive_empty_batches := consecutive_empty_batches st2,
           page := page st1 + concurrent_pages,
           progress_file := Some \<lparr>cp_current_page = page st2 + concurrent_pages + concurrent_pages - 1,
                                   cp_total_properties = length (all_properties st2)\<rparr>\<rparr>"
      by (simp add: r st2_def save_progress_def)
    then show ?thesis by blast
  qed
qed

lemma round_dispatched:
  "\<exists>k. dispatched (after (loop_body net cfg st)) =
         dispatched st @ replicate k (pages_to_scrape cfg st)"
proof (cases "interrupted st \<or> pages_to_scrape cfg st = []")
  case True
  then have "dispatched (after (loop_body net cfg st)) =
         dispatched st @ replicate 0 (pages_to_scrape cfg st)"
    by (simp add: loop_body_stop after_def)
  then show ?thesis by blast
next
  case False
  then obtain c pg pf where "after (loop_body net cfg st) =
           (fst (batch_retry_loop net (pages_to_scrape cfg st) st 0))
             \<lparr>consecutive_empty_batches := c, page := pg, progress_file := pf\<rparr>"
    using loop_body_run[of st cfg net] by blast
  then have "dispatched (after (loop_body net cfg st)) =
     dispatched (fst (batch_retry_loop net (pages_to_scrape cfg st) st 0))" by simp
  with brl_dispatched[of net "pages_to_scrape cfg st" st 0] show ?thesis by metis
qed

lemma round_estimate:
  assumes "total_pages_estimate st \<noteq> 999"
  shows "total_pages_estimate (after (loop_body net cfg st)) = total_pages_estimate st"
proof (cases "interrupted st \<or> pages_to_scrape cfg st = []")
  case True
  then show ?thesis by (simp add: loop_body_stop after_def)
next
  case False
  then obtain c pg pf where "after (loop_body net cfg st) =
           (fst (batch_retry_loop net (pages_to_scrape cfg st) st 0))
             \<lparr>consecutive_empty_batches := c, page := pg, progress_file := pf\<rparr>"
    using loop_body_run[of st cfg net] by blast
  then have "total_pages_estimate (after (loop_body net cfg st)) =
     total_pages_estimate (fst (batch_retry_loop net (pages_to_scrape cfg st) st 0))" by simp
  with brl_estimate[OF assms] show ?thesis by simp
qed

lemma round_interrupted:
  "interrupted (after (loop_body net cfg st)) = interrupted st"
proof (cases "interrupted st \<or> pages_to_scrape cfg st = []")
  case True
  then show ?thesis by (simp add: loop_body_stop after_def)
next
  case False
  then obtain c pg pf where "after (loop_body net cfg st) =
           (fst (batch_retry_loop net (pages_to_scrape cfg st) st 0))
             \<lparr>consecutive_empty_batches := c, page := pg, progress_file := pf\<rparr>"
    using loop_body_run[of st cfg net] by blast
  then have "interrupted (after (loop_body net cfg st)) =
     interrupted (fst (batch_retry_loop net (pages_to_scrape cfg st) st 0))" by simp
  with brl_frame[of net "pages_to_scrape cfg st" st 0] show ?thesis by simp
qed

lemma pages_le_estimate:
  "total_pages_estimate st < 999 \<Longrightarrow> p \<in> set (pages_to_scrape cfg st) \<Longrightarrow>
   p \<le> total_pages_estimate st"
  by (auto dest: set_takeWhileD simp: pages_to_scrape_def)

lemma final_save_frame:
  "dispatched (final_save cfg st) = dispatched st"
  "total_pages_estimate (final_save cfg st) = total_pages_estimate st"
  "interrupted (final_save cfg st) = interrupted st"
  "all_properties (final_save cfg st) = all_properties st"
  by (simp_all add: final_save_def Let_def save_progress_def save_intermediate_data_def)

lemma signal_handler_frame:
  "dispatched (signal_handler cfg st) = dispatched st"
  "total_pages_estimate (signal_handler cfg st) = total_pages_estimate st"
  "interrupted (signal_handler cfg st)"
  "all_properties (signal_handler cfg st) = all_properties st"
  by (simp_all add: signal_handler_def save_on_interrupt_def save_progress_def
      save_intermediate_data_def)

lemma step_after:
  assumes "step net cfg ph ph'"
  shows "\<exists>st. ph = Running st \<and>
           (state_of ph' = after (loop_body net cfg st) \<or>
            state_of ph' = final_save cfg (after (loop_body net cfg st)) \<or>
            state_of ph' = signal_handler cfg st)"
  using assms by (cases rule: step.cases) (auto simp: after_def)


lemma step_known:
  assumes "step net cfg ph ph'" and "total_pages_estimate (state_of ph) < 999"
  shows "total_pages_estimate (state_of ph') = total_pages_estimate (state_of ph) \<and>
         (\<exists>ds. dispatched (state_of ph') = dispatched (state_of ph) @ ds \<and>
               (\<forall>ps\<in>set ds. \<forall>p\<in>set ps. p \<le> total_pages_estimate (state_of ph)))"
proof -
  from step_after[OF assms(1)] obtain st where st: "ph = Running st"
    and c: "state_of ph' = after (loop_body net cfg st) \<or>
            state_of ph' = final_save cfg (after (loop_body net cfg st)) \<or>
            state_of ph' = signal_handler cfg st" by blast
  from st assms(2) have k: "total_pages_estimate st < 999" by simp
  then have e: "total_pages_estimate (after (loop_body net cfg st)) = total_pages_estimate st"
    using round_estimate[of st net cfg] by simp
  obtain j where d: "dispatched (after (loop_body net cfg st)) =
         dispatched st @ replicate j (pages_to_scrape cfg st)"
    using round_dispatched[of net cfg st] by blast
  have le: "\<forall>ps\<in>set (replicate j (pages_to_scrape cfg st)). \<forall>p\<in>set ps. p \<le> total_pages_estimate st"
    using pages_le_estimate[OF k] by auto
  have nil: "\<forall>ps\<in>set ([] :: int list list). \<forall>p\<in>set ps. p \<le> total_pages_estimate st" by simp
  from c have "total_pages_estimate (state_of ph') = total_pages_estimate st"
    by (auto simp: e final_save_frame signal_handler_frame)
  moreover from c have "dispatched (state_of ph') = dispatched st @ replicate j (pages_to_scrape cfg st)
      \<or> dispatched (state_of ph') = dispatched st @ []"
    by (auto simp: d final_save_frame signal_handler_frame)
  then have "\<exists>ds. dispatched (state_of ph') = dispatched st @ ds \<and>
               (\<forall>ps\<in>set ds. \<forall>p\<in>set ps. p \<le> total_pages_estimate st)"
    using le nil by blast
  ultimately show ?thesis by (simp add: st)
qed

text \<open>
  C1, evaluated. A site serves one record on every page; the harvest starts at page 1. The
  first round dispatches pages 1 to 5 and sets \<open>current_page\<close> to 5, yet the checkpoint
  it writes names page 10: \<open>save_progress\<close> is called after \<open>page\<close> has been moved on
  to the next batch, with \<open>page + concurrent_pages - 1\<close>.
\<close>

theorem checkpoint_names_next_batch:
  "dispatched (after (loop_body endless_site plain (enter plain fresh))) = [[1, 2, 3, 4, 5]] \<and>
   progress_file (after (loop_body endless_site plain (enter plain fresh))) =
     Some \<lparr>cp_current_page = 10, cp_total_properties = 5\<rparr> \<and>
   current_page (after (loop_body endless_site plain (enter plain fresh))) = 5"
  by code_simp

lemma pages_to_scrape_sorted: "sorted (pages_to_scrape cfg st)"
proof -
  have "sorted (map (\<lambda>i. page st + int i) [0..<n])" for n
    by (induction n) (auto simp: sorted_append)
  then show ?thesis unfolding pages_to_scrape_def by (rule sorted_takeWhile)
qed

lemma round_results:
  "batch_results net n (pages_to_scrape cfg st) = map (future_result net n) (pages_to_scrape cfg st)"
  by (simp add: batch_results_in_page_order sort_key_id_if_sorted pages_to_scrape_sorted)

lemma first_known_total:
  "fold (\<lambda>r e. update_estimate e (tot r)) (filter P rs) 999 =
     (case find (\<lambda>r. P r \<and> tot r < 999) rs of None \<Rightarrow> 999 | Some r \<Rightarrow> tot r)"
proof (induction rs)
  case Nil
  show ?case by simp
next
  case (Cons r rs)
  show ?case
  proof (cases "P r \<and> tot r < 999")
    case True
    then have "update_estimate 999 (tot r) \<noteq> 999" by (simp add: update_estimate_def)
    then have "fold (\<lambda>r e. update_estimate e (tot r)) (filter P rs) (update_estimate 999 (tot r)) =
        update_estimate 999 (tot r)" by (rule fold_update_known)
    with True show ?thesis by (simp add: update_estimate_def)
  next
    case False
    then show ?thesis using Cons.IH by (auto simp: update_estimate_def)
  qed
qed

lemma brl_last_pass:
  "\<exists>k. dispatched (fst (batch_retry_loop net pages st brc)) =
         dispatched st @ replicate (Suc k) pages \<and>
       total_pages_estimate (fst (batch_retry_loop net pages st brc)) =
         estimate (process_results (batch_results net (length (dispatched st) + k) pages)
                     (total_pages_estimate st))"
proof (induction "2 - brc" arbitrary: st brc)
  case 0
  then have "\<not> brc < 2" by simp
  then have "dispatched (fst (batch_retry_loop net pages st brc)) =
         dispatched st @ replicate (Suc 0) pages \<and>
       total_pages_estimate (fst (batch_retry_loop net pages st brc)) =
         estimate (process_results (batch_results net (length (dispatched st) + 0) pages)
                     (total_pages_estimate st))"
    by (subst (1 2) batch_retry_unfold) (simp add: Let_def)
  then show ?case by blast
next
  case (Suc k)
  then have b: "brc < 2" and k: "k = 2 - (brc + 1)" by simp_all
  let ?rs = "batch_results net (length (dispatched st)) pages"
  let ?st1 = "st\<lparr>dispatched := dispatched st @ [pages]\<rparr>"
  show ?case
  proof (cases "\<not> no_records ?rs \<or> page st > 100")
    case True
    then have "dispatched (fst (batch_retry_loop net pages st brc)) =
         dispatched st @ replicate (Suc 0) pages \<and>
       total_pages_estimate (fst (batch_retry_loop net pages st brc)) =
         estimate (process_results (batch_results net (length (dispatched st) + 0) pages)
                     (total_pages_estimate st))"
      by (subst (1 2) batch_retry_unfold) (auto simp add: Let_def)
    then show ?thesis by blast
  next
    case False
    then have n: "no_records ?rs" by simp
    from False have e: "batch_retry_loop net pages st brc = batch_retry_loop net pages ?st1 (brc + 1)"
      using b empty_pass[OF n] by (subst batch_retry_unfold) (simp add: Let_def)
    from Suc.hyps(1)[OF k, of ?st1] obtain j where
      j: "dispatched (fst (batch_retry_loop net pages ?st1 (brc + 1))) =
         dispatched ?st1 @ replicate (Suc j) pages"
        "total_pages_estimate (fst (batch_retry_loop net pages ?st1 (brc + 1))) =
         estimate (process_results (batch_results net (length (dispatched ?st1) + j) pages)
                     (total_pages_estimate ?st1))" by blast
    have "dispatched (fst (batch_retry_loop net pages st brc)) =
         dispatched st @ replicate (Suc (Suc j)) pages \<and>
       total_pages_estimate (fst (batch_retry_loop net pages st brc)) =
         estimate (process_results (batch_results net (length (dispatched st) + Suc j) pages)
                     (total_pages_estimate st))"
      using j by (simp add: e replicate_append_same)
    then show ?thesis by blast
  qed
qed

lemma round_first_total:
  assumes "\<not> interrupted st" and "pages_to_scrape cfg st \<noteq> []"
    and "total_pages_estimate st = 999"
  shows "total_pages_estimate (after (loop_body net cfg st)) =
       (case find (\<lambda>r. fst (snd r) \<noteq> [] \<and> snd (snd (snd r)) < 999)
               (map (future_result net (length (dispatched (after (loop_body net cfg st))) - 1))
                    (pages_to_scrape cfg st)) of
          None \<Rightarrow> 999 | Some r \<Rightarrow> snd (snd (snd r)))"
proof -
  let ?pages = "pages_to_scrape cfg st"
  let ?b = "fst (batch_retry_loop net ?pages st 0)"
  obtain c pg pf where "after (loop_body net cfg st) =
      ?b\<lparr>consecutive_empty_batches := c, page := pg, progress_file := pf\<rparr>"
    using loop_body_run[OF assms(1,2), of net] by blast
  then have a: "total_pages_estimate (after (loop_body net cfg st)) = total_pages_estimate ?b"
    "dispatched (after (loop_body net cfg st)) = dispatched ?b" by simp_all
  obtain k where k: "dispatched ?b = dispatched st @ replicate (Suc k) ?pages"
    "total_pages_estimate ?b =
       estimate (process_results (batch_results net (length (dispatched st) + k) ?pages)
                   (total_pages_estimate st))"
    using brl_last_pass[of net ?pages st 0] by blast
  have l: "length (dispatched (after (loop_body net cfg st))) - 1 = length (dispatched st) + k"
    by (simp add: a k)
  show ?thesis
    unfolding l a(1) k(2) assms(3)
    by (simp add: process_results_eq round_results first_known_total)
qed

text \<open>
  C4, as the code has it. A harvest starts with the estimate 999. A round entered with 999
  leaves as estimate the total of the first result, in page order, of its last dispatch
  that has records and reports a total below 999, and 999 when there is none. Once the
  estimate is below 999, no step of the harvest changes it, whatever totals later pages
  report, and every page dispatched from then on is at most the estimate.
\<close>

theorem known_total_is_final:
  "total_pages_estimate (enter cfg st0) = 999 \<and>
   (\<not> interrupted st \<and> pages_to_scrape cfg st \<noteq> [] \<and> total_pages_estimate st = 999 \<longrightarrow>
      total_pages_estimate (after (loop_body net cfg st)) =
        (case find (\<lambda>r. fst (snd r) \<noteq> [] \<and> snd (snd (snd r)) < 999)
                (map (future_result net (length (dispatched (after (loop_body net cfg st))) - 1))
                     (pages_to_scrape cfg st)) of
           None \<Rightarrow> 999 | Some r \<Rightarrow> snd (snd (snd r)))) \<and>
   (total_pages_estimate st < 999 \<longrightarrow>
      (\<forall>ph. (step net cfg)\<^sup>*\<^sup>* (Running st) ph \<longrightarrow>
         total_pages_estimate (state_of ph) = total_pages_estimate st \<and>
         (\<exists>ds. dispatched (state_of ph) = dispatched st @ ds \<and>
               (\<forall>ps\<in>set ds. \<forall>p\<in>set ps. p \<le> total_pages_estimate st))))"
proof (intro conjI impI allI)
  show "total_pages_estimate (enter cfg st0) = 999" by (simp add: enter_def)
next
  assume "\<not> interrupted st \<and> pages_to_scrape cfg st \<noteq> [] \<and> total_pages_estimate st = 999"
  then show "total_pages_estimate (after (loop_body net cfg st)) =
        (case find (\<lambda>r. fst (snd r) \<noteq> [] \<and> snd (snd (snd r)) < 999)
                (map (future_result net (length (dispatched (after (loop_body net cfg st))) - 1))
                     (pages_to_scrape cfg st)) of
           None \<Rightarrow> 999 | Some r \<Rightarrow> snd (snd (snd r)))"
    using round_first_total[of st cfg net] by blast
next
  fix ph
  assume known: "total_pages_estimate st < 999" and run: "(step net cfg)\<^sup>*\<^sup>* (Running st) ph"
  from run have "total_pages_estimate (state_of ph) = total_pages_estimate st \<and>
         (\<exists>ds. dispatched (state_of ph) = dispatched st @ ds \<and>
               (\<forall>ps\<in>set ds. \<forall>p\<in>set ps. p \<le> total_pages_estimate st))"
  proof (induction rule: rtranclp_induct)
    case base
    show ?case by simp
  next
    case (step y z)
    then obtain ds where y: "total_pages_estimate (state_of y) = total_pages_estimate st"
      "dispatched (state_of y) = dispatched st @ ds"
      "\<forall>ps\<in>set ds. \<forall>p\<in>set ps. p \<le> total_pages_estimate st" by blast
    from step_known[OF step.hyps(2)] y(1) known obtain ds' where z:
      "total_pages_estimate (state_of z) = total_pages_estimate st"
      "dispatched (state_of z) = dispatched (state_of y) @ ds'"
      "\<forall>ps\<in>set ds'. \<forall>p\<in>set ps. p \<le> total_pages_estimate st" by auto
    have "dispatched (state_of z) = dispatched st @ (ds @ ds')" using y(2) z(2) by simp
    moreover have "\<forall>ps\<in>set (ds @ ds'). \<forall>p\<in>set ps. p \<le> total_pages_estimate st"
      using y(3) z(3) by auto
    ultimately show ?case using z(1) by blast
  qed
  then show "total_pages_estimate (state_of ph) = total_pages_estimate st"
    and "\<exists>ds. dispatched (state_of ph) = dispatched st @ ds \<and>
               (\<forall>ps\<in>set ds. \<forall>p\<in>set ps. p \<le> total_pages_estimate st)" by simp_all
qed

theorem known_total_is_final_witness:
  "total_pages_estimate (after (loop_body late_total_site plain (enter plain fresh))) = 80 \<and>
   total_pages_estimate
     (after (loop_body late_total_site plain
        (after (loop_body late_total_site plain (enter plain fresh))))) = 80 \<and>
   dispatched
     (after (loop_body late_total_site plain
        (after (loop_body late_total_site plain (enter plain fresh))))) =
     [[1, 2, 3, 4, 5], [6, 7, 8, 9, 10]]"
proof -
  let ?s0 = "enter plain fresh :: int scraper"
  let ?s1 = "after (loop_body late_total_site plain ?s0)"
  let ?s2 = "after (loop_body late_total_site plain ?s1)"
  have h0: "\<not> interrupted ?s0 \<and> pages_to_scrape plain ?s0 \<noteq> [] \<and> total_pages_estimate ?s0 = 999"
    by code_simp
  have r0: "(case find (\<lambda>r. fst (snd r) \<noteq> [] \<and> snd (snd (snd r)) < 999)
                (map (future_result late_total_site (length (dispatched ?s1) - 1))
                     (pages_to_scrape plain ?s0)) of
           None \<Rightarrow> 999 | Some r \<Rightarrow> snd (snd (snd r))) = 80"
    by code_simp
  from known_total_is_final[of plain ?s0 ?s0 late_total_site] h0
  have "total_pages_estimate ?s1 =
      (case find (\<lambda>r. fst (snd r) \<noteq> [] \<and> snd (snd (snd r)) < 999)
                (map (future_result late_total_site (length (dispatched ?s1) - 1))
                     (pages_to_scrape plain ?s0)) of
           None \<Rightarrow> 999 | Some r \<Rightarrow> snd (snd (snd r)))" by blast
  from this r0 have e1: "total_pages_estimate ?s1 = 80" by (rule trans)
  then have k1: "total_pages_estimate ?s1 < 999" by simp
  have "case loop_body late_total_site plain ?s1 of Break s \<Rightarrow> False | Continue s \<Rightarrow> True"
    by code_simp
  then have "loop_body late_total_site plain ?s1 = Continue ?s2"
    by (cases "loop_body late_total_site plain ?s1") (simp_all add: after_def)
  then have run: "(step late_total_site plain)\<^sup>*\<^sup>* (Running ?s1) (Running ?s2)"
    by (intro r_into_rtranclp step.round)
  from known_total_is_final[of plain ?s0 ?s1 late_total_site] k1 run
  have "total_pages_estimate (state_of (Running ?s2)) = total_pages_estimate ?s1" by blast
  then have e2: "total_pages_estimate ?s2 = 80" using e1 by simp
  have d: "dispatched ?s2 = [[1, 2, 3, 4, 5], [6, 7, 8, 9, 10]]" by code_simp
  from e1 e2 d show ?thesis by simp
qed

text \<open>
  C4 as the specification words it fails: the first result that carries a concrete total
  is that of page 1, which reports 40 and has no records; the estimate after the batch is
  the 80 of page 2.
\<close>

theorem first_report_does_not_win:
  "find (\<lambda>r. snd (snd (snd r)) < 999) (batch_results late_total_site 0 [1, 2, 3, 4, 5]) =
     Some (1, [], 1, 40) \<and>
   dispatched (after (loop_body late_total_site plain (enter plain fresh))) = [[1, 2, 3, 4, 5]] \<and>
   total_pages_estimate (after (loop_body late_total_site plain (enter plain fresh))) = 80"
  by code_simp




section \<open>The order of the records\<close>

lemma future_result_finish:
  "future_result (net\<lparr>finish := f\<rparr>) n p = future_result net n p"
  by (simp add: future_result_def)

lemma batch_results_finish:
  "batch_results (net\<lparr>finish := f\<rparr>) n pages = batch_results net n pages"
  by (simp add: batch_results_in_page_order future_result_finish)

lemma batch_retry_loop_finish:
  "batch_retry_loop (net\<lparr>finish := f\<rparr>) pages st brc = batch_retry_loop net pages st brc"
proof (induction "2 - brc" arbitrary: st brc)
  case 0
  then have "\<not> brc < 2" by simp
  then show ?case
    by (subst (1 2) batch_retry_unfold) (simp add: Let_def batch_results_finish)
next
  case (Suc k)
  then have b: "brc < 2" and k: "k = 2 - (brc + 1)" by simp_all
  show ?case
    using Suc.hyps(1)[OF k] b
    by (subst (1 2) batch_retry_unfold) (simp add: Let_def batch_results_finish)
qed

lemma loop_body_finish:
  "loop_body (net\<lparr>finish := f\<rparr>) cfg st = loop_body net cfg st"
  by (simp add: loop_body_def batch_retry_loop_finish Let_def)

lemma scrape_loop_finish_Some:
  assumes "scrape_loop net cfg st = Some y"
  shows "scrape_loop (net\<lparr>finish := g\<rparr>) cfg st = Some y"
proof (rule scrape_loop.raw_induct
    [where P = "\<lambda>net cfg st y. scrape_loop (net\<lparr>finish := g\<rparr>) cfg st = Some y", OF _ assms])
  fix sl :: "'a network \<Rightarrow> config \<Rightarrow> 'a scraper \<Rightarrow> 'a scraper option"
  fix n c s z
  assume IH: "\<And>n c s z. sl n c s = Some z \<Longrightarrow> scrape_loop (n\<lparr>finish := g\<rparr>) c s = Some z"
    and eq: "(case loop_body n c s of Break st' \<Rightarrow> Some st' | Continue st' \<Rightarrow> sl n c st') = Some z"
  show "scrape_loop (n\<lparr>finish := g\<rparr>) c s = Some z"
  proof (cases "loop_body n c s")
    case (Break s')
    with eq show ?thesis
      by (subst scrape_loop.simps) (simp add: loop_body_finish)
  next
    case (Continue s')
    with eq have "sl n c s' = Some z" by simp
    then have "scrape_loop (n\<lparr>finish := g\<rparr>) c s' = Some z" by (rule IH)
    with Continue show ?thesis
      by (subst scrape_loop.simps) (simp add: loop_body_finish)
  qed
qed

lemma scrape_loop_finish:
  "scrape_loop (net\<lparr>finish := f\<rparr>) cfg st = scrape_loop net cfg st"
proof (cases "scrape_loop net cfg st")
  case (Some y)
  then show ?thesis by (simp add: scrape_loop_finish_Some)
next
  case None
  show ?thesis
  proof (cases "scrape_loop (net\<lparr>finish := f\<rparr>) cfg st")
    case None
    with \<open>scrape_loop net cfg st = None\<close> show ?thesis by simp
  next
    case (Some y)
    from scrape_loop_finish_Some[OF Some, of "finish net"]
    have "scrape_loop net cfg st = Some y" by simp
    with \<open>scrape_loop net cfg st = None\<close> show ?thesis by simp
  qed
qed

lemma scrape_rounds_sound:
  "scrape_rounds k net cfg st = Some y \<Longrightarrow> scrape_loop net cfg st = Some y"
proof (induction k arbitrary: st)
  case 0
  then show ?case by simp
next
  case (Suc k)
  show ?case
  proof (cases "loop_body net cfg st")
    case (Break s)
    with Suc.prems show ?thesis by (subst scrape_loop.simps) simp
  next
    case (Continue s)
    with Suc.prems have "scrape_rounds k net cfg s = Some y" by simp
    then have "scrape_loop net cfg s = Some y" by (rule Suc.IH)
    with Continue show ?thesis by (subst scrape_loop.simps) simp
  qed
qed

lemma pages_to_scrape_strict: "sorted_wrt (<) (pages_to_scrape cfg st)"
proof -
  have s: "sorted_wrt (<) (map (\<lambda>i. page st + int i) [0..<n])" for n
    by (induction n) (auto simp: sorted_wrt_append)
  have "pages_to_scrape cfg st =
      take (length (pages_to_scrape cfg st)) (map (\<lambda>i. page st + int i) [0..<nat concurrent_pages])"
    unfolding pages_to_scrape_def by (rule takeWhile_eq_take)
  then show ?thesis using sorted_wrt_take[OF s] by metis
qed

lemma pages_to_scrape_range:
  "p \<in> set (pages_to_scrape cfg st) \<Longrightarrow> page st \<le> p \<and> p < page st + 5"
  by (auto dest!: set_takeWhileD simp: pages_to_scrape_def concurrent_pages_def)

lemma brl_all_properties:
  "\<exists>n. all_properties (fst (batch_retry_loop net pages st brc)) =
         all_properties st @ records_in (batch_results net n pages)"
proof (induction "2 - brc" arbitrary: st brc)
  case 0
  then have b: "\<not> brc < 2" by simp
  let ?rs = "batch_results net (length (dispatched st)) pages"
  have "all_properties (fst (batch_retry_loop net pages st brc)) = all_properties st @ records_in ?rs"
  proof (cases "\<not> no_records ?rs \<or> page st > 100")
    case True
    then show ?thesis by (subst batch_retry_unfold) (auto simp add: Let_def)
  next
    case False
    then have "records_in ?rs = []" by (simp add: no_records_records_in)
    with False b show ?thesis by (subst batch_retry_unfold) (simp add: Let_def)
  qed
  then show ?case by blast
next
  case (Suc k)
  then have b: "brc < 2" and k: "k = 2 - (brc + 1)" by simp_all
  let ?rs = "batch_results net (length (dispatched st)) pages"
  let ?st1 = "st\<lparr>dispatched := dispatched st @ [pages]\<rparr>"
  show ?case
  proof (cases "\<not> no_records ?rs \<or> page st > 100")
    case True
    then have "all_properties (fst (batch_retry_loop net pages st brc)) =
        all_properties st @ records_in ?rs"
      by (subst batch_retry_unfold) (auto simp add: Let_def)
    then show ?thesis by blast
  next
    case False
    then have n: "no_records ?rs" by simp
    from False have e: "batch_retry_loop net pages st brc = batch_retry_loop net pages ?st1 (brc + 1)"
      using b empty_pass[OF n] by (subst batch_retry_unfold) (simp add: Let_def)
    from Suc.hyps(1)[OF k, of ?st1] show ?thesis by (simp add: e)
  qed
qed

lemma loop_body_shape:
  assumes "\<not> interrupted st" and "pages_to_scrape cfg st \<noteq> []"
  shows "(\<exists>c. loop_body net cfg st =
            Break ((fst (batch_retry_loop net (pages_to_scrape cfg st) st 0))
                     \<lparr>consecutive_empty_batches := c\<rparr>)) \<or>
         (\<exists>c pf. loop_body net cfg st =
            Continue ((fst (batch_retry_loop net (pages_to_scrape cfg st) st 0))
                     \<lparr>consecutive_empty_batches := c, page := page st + 5, progress_file := pf\<rparr>))"
proof -
  obtain st1 e n where r: "batch_retry_loop net (pages_to_scrape cfg st) st 0 = (st1, e, n)"
    by (cases "batch_retry_loop net (pages_to_scrape cfg st) st 0") auto
  have p: "page st1 = page st"
    using brl_frame[of net "pages_to_scrape cfg st" st 0] by (simp add: r)
  define st2 where
    "st2 = st1\<lparr>consecutive_empty_batches :=
                  (if e = n then consecutive_empty_batches st1 + 1 else 0)\<rparr>"
  have "loop_body net cfg st = Break st2 \<or>
        loop_body net cfg st =
          Continue (save_progress (st2\<lparr>page := page st2 + concurrent_pages\<rparr>)
            (page st2 + concurrent_pages + concurrent_pages - 1) (length (all_properties st2)))"
    using assms by (simp add: loop_body_def r Let_def st2_def)
  then show ?thesis
  proof
    assume "loop_body net cfg st = Break st2"
    then have "loop_body net cfg st =
            Break ((fst (batch_retry_loop net (pages_to_scrape cfg st) st 0))
                     \<lparr>consecutive_empty_batches := consecutive_empty_batches st2\<rparr>)"
      by (simp add: r st2_def)
    then show ?thesis by blast
  next
    assume "loop_body net cfg st =
          Continue (save_progress (st2\<lparr>page := page st2 + concurrent_pages\<rparr>)
            (page st2 + concurrent_pages + concurrent_pages - 1) (length (all_properties st2)))"
    then have "loop_body net cfg st =
            Continue ((fst (batch_retry_loop net (pages_to_scrape cfg st) st 0))
                     \<lparr>consecutive_empty_batches := consecutive_empty_batches st2,
                      page := page st + 5,
                      progress_file := Some \<lparr>cp_current_page = page st2 + concurrent_pages + concurrent_pages - 1,
                                   cp_total_properties = length (all_properties st2)\<rparr>\<rparr>)"
      by (simp add: r st2_def save_progress_def p concurrent_pages_def)
    then show ?thesis by blast
  qed
qed

lemma collected_extend:
  assumes c: "collected net b props" and s: "sorted_wrt (<) pages"
    and r: "\<forall>p\<in>set pages. b \<le> p \<and> p < b'" and le: "b \<le> b'"
  shows "collected net b' (props @ records_in (map (future_result net n) pages))"
proof -
  from c obtain rs where rs: "props = records_in rs" "sorted_wrt (<) (map fst rs)"
    "\<forall>r\<in>set rs. fst r < b \<and> (\<exists>n. r = future_result net n (fst r))"
    unfolding collected_def by blast
  let ?new = "map (future_result net n) pages"
  have f: "map fst ?new = pages" by (simp add: comp_def future_result_page)
  have 1: "props @ records_in ?new = records_in (rs @ ?new)"
    by (simp add: rs(1) records_in_def)
  have 2: "sorted_wrt (<) (map fst (rs @ ?new))"
    using rs(2,3) s r by (fastforce simp: sorted_wrt_append f simp del: map_map)
  have 3: "\<forall>x\<in>set (rs @ ?new). fst x < b' \<and> (\<exists>n. x = future_result net n (fst x))"
  proof
    fix x assume "x \<in> set (rs @ ?new)"
    then consider "x \<in> set rs" | p where "p \<in> set pages" "x = future_result net n p" by auto
    then show "fst x < b' \<and> (\<exists>n. x = future_result net n (fst x))"
    proof cases
      case 1
      then have "fst x < b" "\<exists>n. x = future_result net n (fst x)" using rs(3) by auto
      then show ?thesis using le by auto
    next
      case 2
      then show ?thesis using r by (auto simp: future_result_page)
    qed
  qed
  show ?thesis unfolding collected_def using 1 2 3 by blast
qed

lemma loop_body_collected:
  assumes c: "collected net (page st) (all_properties st)"
  shows "(loop_body net cfg st = Break s \<longrightarrow> collected net (page st + 5) (all_properties s)) \<and>
         (loop_body net cfg st = Continue s \<longrightarrow> collected net (page s) (all_properties s))"
proof (cases "interrupted st \<or> pages_to_scrape cfg st = []")
  case True
  then have b: "loop_body net cfg st = Break st" by (rule loop_body_stop)
  have "collected net (page st + 5)
          (all_properties st @ records_in (map (future_result net 0) []))"
    by (rule collected_extend[OF c]) simp_all
  then show ?thesis by (auto simp: b records_in_def)
next
  case False
  let ?pages = "pages_to_scrape cfg st"
  let ?b = "fst (batch_retry_loop net ?pages st 0)"
  obtain n where "all_properties ?b = all_properties st @ records_in (batch_results net n ?pages)"
    using brl_all_properties[of net ?pages st 0] by blast
  then have a: "all_properties ?b =
      all_properties st @ records_in (map (future_result net n) ?pages)"
    by (simp add: round_results)
  have col: "collected net (page st + 5) (all_properties ?b)"
    unfolding a
    by (rule collected_extend[OF c pages_to_scrape_strict]) (auto dest: pages_to_scrape_range)
  from False loop_body_shape[of st cfg net] consider
    c' where "loop_body net cfg st = Break (?b\<lparr>consecutive_empty_batches := c'\<rparr>)"
    | c' pf where "loop_body net cfg st =
        Continue (?b\<lparr>consecutive_empty_batches := c', page := page st + 5, progress_file := pf\<rparr>)"
    by blast
  then show ?thesis
  proof cases
    case 1
    then show ?thesis using col by auto
  next
    case 2
    then show ?thesis using col by auto
  qed
qed

lemma scrape_loop_collected:
  assumes "scrape_loop net cfg st = Some y"
  shows "collected net (page st) (all_properties st) \<longrightarrow> (\<exists>b. collected net b (all_properties y))"
proof (rule scrape_loop.raw_induct
    [where P = "\<lambda>net cfg st y. collected net (page st) (all_properties st) \<longrightarrow>
                   (\<exists>b. collected net b (all_properties y))", OF _ assms])
  fix sl :: "'a network \<Rightarrow> config \<Rightarrow> 'a scraper \<Rightarrow> 'a scraper option"
  fix n c s z
  assume IH: "\<And>n c s z. sl n c s = Some z \<Longrightarrow>
      collected n (page s) (all_properties s) \<longrightarrow> (\<exists>b. collected n b (all_properties z))"
    and eq: "(case loop_body n c s of Break st' \<Rightarrow> Some st' | Continue st' \<Rightarrow> sl n c st') = Some z"
  show "collected n (page s) (all_properties s) \<longrightarrow> (\<exists>b. collected n b (all_properties z))"
  proof
    assume col: "collected n (page s) (all_properties s)"
    show "\<exists>b. collected n b (all_properties z)"
    proof (cases "loop_body n c s")
      case (Break s')
      with eq have "s' = z" by simp
      with loop_body_collected[OF col, of c z] Break show ?thesis by blast
    next
      case (Continue s')
      with eq have "sl n c s' = Some z" by simp
      moreover from loop_body_collected[OF col, of c s'] Continue
      have "collected n (page s') (all_properties s')" by simp
      ultimately show ?thesis using IH by blast
    qed
  qed
qed

text \<open>
  C8. The results of a pass are those of its pages in ascending page order, whatever the
  order in which the futures complete; the completion order has no influence on what the
  harvest returns; and the record list a harvest returns is the concatenation of page
  results of the network with strictly ascending page numbers.
\<close>

theorem records_in_page_order:
  "batch_results net n pages = map (future_result net n) (sort pages) \<and>
   scrape_city_property_type (net\<lparr>finish := f\<rparr>) cfg st = scrape_city_property_type net cfg st \<and>
   (scrape_city_property_type net cfg st = Some (recs, st') \<longrightarrow>
      (\<exists>rs. recs = records_in rs \<and> sorted_wrt (<) (map fst rs) \<and>
            (\<forall>r\<in>set rs. \<exists>k. r = future_result net k (fst r))))"
proof (intro conjI impI)
  show "batch_results net n pages = map (future_result net n) (sort pages)"
    by (rule batch_results_in_page_order)
next
  show "scrape_city_property_type (net\<lparr>finish := f\<rparr>) cfg st = scrape_city_property_type net cfg st"
    by (simp add: scrape_city_property_type_def scrape_loop_finish)
next
  assume "scrape_city_property_type net cfg st = Some (recs, st')"
  then obtain y where y: "scrape_loop net cfg (enter cfg st) = Some y" and r: "recs = all_properties y"
    by (auto simp: scrape_city_property_type_def)
  have "all_properties (enter cfg st) = records_in [] \<and> sorted_wrt (<) (map fst []) \<and>
      (\<forall>r\<in>set ([] :: 'a page_result list). fst r < page (enter cfg st) \<and>
          (\<exists>n. r = future_result net n (fst r)))"
    by (simp add: enter_def records_in_def)
  then have "collected net (page (enter cfg st)) (all_properties (enter cfg st))"
    unfolding collected_def by blast
  with scrape_loop_collected[OF y] obtain b where "collected net b (all_properties y)" by blast
  then show "\<exists>rs. recs = records_in rs \<and> sorted_wrt (<) (map fst rs) \<and>
            (\<forall>r\<in>set rs. \<exists>k. r = future_result net k (fst r))"
    unfolding collected_def r by blast
qed

theorem records_in_page_order_witness:
  "map_option fst (scrape_city_property_type late_total_site plain fresh) =
     Some [2, 3, 4, 5, 6, 7, 8, 9, 10] \<and>
   map_option fst (scrape_city_property_type (late_total_site\<lparr>finish := (\<lambda>n p. 0)\<rparr>) plain fresh) =
     Some [2, 3, 4, 5, 6, 7, 8, 9, 10] \<and>
   (\<exists>rs. [2, 3, 4, 5, 6, 7, 8, 9, 10 :: int] = records_in rs \<and> sorted_wrt (<) (map fst rs))"
proof -
  have "map_option all_properties (scrape_rounds 4 late_total_site plain (enter plain fresh)) =
      Some [2, 3, 4, 5, 6, 7, 8, 9, 10]"
    by code_simp
  then obtain y where y: "scrape_rounds 4 late_total_site plain (enter plain fresh) = Some y"
    and a: "all_properties y = [2, 3, 4, 5, 6, 7, 8, 9, 10]" by auto
  from scrape_rounds_sound[OF y]
  have e: "scrape_city_property_type late_total_site plain fresh =
      Some ([2, 3, 4, 5, 6, 7, 8, 9, 10], final_save plain y)"
    by (simp add: scrape_city_property_type_def a)
  note t = records_in_page_order[of late_total_site _ _ "\<lambda>n p. 0" plain fresh
      "[2, 3, 4, 5, 6, 7, 8, 9, 10]" "final_save plain y"]
  from t e have "\<exists>rs. [2, 3, 4, 5, 6, 7, 8, 9, 10 :: int] = records_in rs \<and> sorted_wrt (<) (map fst rs)"
    by blast
  moreover from t e have "scrape_city_property_type (late_total_site\<lparr>finish := (\<lambda>n p. 0)\<rparr>) plain fresh =
      Some ([2, 3, 4, 5, 6, 7, 8, 9, 10], final_save plain y)" by simp
  ultimately show ?thesis using e by simp
qed

section \<open>The end of the harvest\<close>
























end
